theory Spec2Isabelle
  imports Main "HOL-Library.AList" "HOL-Library.Sublist"
begin

section \<open>Data model of ReactMultiChild\<close>

text \<open>
  Component instances are JavaScript objects that the reconciler mutates through shared
  references (a child is reachable from the keyed children map, from its sibling's
  \<open>_previousSibling\<close> and from its children's \<open>_parentComponent\<close>), so the model keeps
  them in an explicit store: a reference is a natural number and the heap maps every
  reference to the fields of its object.

  A numeric field that JavaScript may hold as \<open>null\<close> is an \<open>int option\<close>; \<open>num\<close> is
  the value arithmetic and comparison read from it (\<open>null\<close> counts as \<open>0\<close>).

  A keyed children map is the list of its own enumerable properties in \<open>for ... in\<close>
  order (insertion order); a value is \<open>None\<close> when the property holds a falsy
  placeholder and \<open>Some r\<close> when it holds the object \<open>r\<close>.  \<open>hasOwnProperty\<close> is true
  of every listed key.  Assigning to a key keeps its place when the key exists and
  appends it otherwise (\<open>AList.update\<close>); \<open>delete\<close> removes it (\<open>AList.delete\<close>).
\<close>

type_synonym ref = nat

type_synonym children = "(string \<times> ref option) list"

record component =
  rootNodeID :: string
  ctor :: nat
  props :: nat
  isComponent :: bool
  mountIndex :: "int option"
  nodeCount :: "int option"
  parentComponent :: "ref option"
  previousSibling :: "ref option"
  firstRenderedChild :: "ref option"
  renderedChildren :: "children option"

text \<open>
  \<open>ctor\<close> is the identity of the object's \<open>constructor\<close>, \<open>props\<close> an opaque value for
  its props, and \<open>isComponent\<close> says that the object is a genuine component instance:
  \<open>ReactComponent.isValidComponent\<close> holds of it and it carries the capability set
  \<open>mountComponent\<close>, \<open>receiveProps\<close>, \<open>unmountComponent\<close>.
\<close>

datatype updateType =
  INSERT_MARKUP | MOVE_EXISTING | REMOVE_NODE | REPLACE_WITH_MARKUP | TEXT_CONTENT

text \<open>An update record; \<open>parentNode\<close> is \<open>null\<close> in every record the module builds and is left out.\<close>

record update =
  parentID :: string
  utype :: updateType
  markupIndex :: "nat option"
  textContent :: "string option"
  uNodeCount :: "int option"
  fromIndex :: "int option"
  toIndex :: "int option"

datatype error = InvariantViolation string | TypeError | ChildError string

datatype call = Mount ref string | ReceiveProps ref nat | Unmount ref

text \<open>
  The world: the store, the three module-level variables \<open>updateDepth\<close>, \<open>updateQueue\<close>,
  \<open>markupQueue\<close>, the log \<open>applied\<close> of the arguments each call of
  \<open>dangerouslyProcessChildrenUpdates\<close> received, and the log \<open>calls\<close> of the child
  capabilities that were invoked.
\<close>

record world =
  heap :: "ref \<Rightarrow> component"
  updateDepth :: int
  updateQueue :: "update list"
  markupQueue :: "string list"
  applied :: "(update list \<times> string list) list"
  calls :: "call list"

text \<open>
  A computation returns \<open>None\<close> when it does not return (a pointer walk on a cyclic
  store), and otherwise the world it left together with the value it returned (\<open>Inr\<close>)
  or the error it threw (\<open>Inl\<close>).
\<close>

type_synonym 'a outcome = "((error + 'a) \<times> world) option"

definition ok :: "'a \<Rightarrow> world \<Rightarrow> 'a outcome" where
  "ok x w = Some (Inr x, w)"

definition throw :: "error \<Rightarrow> world \<Rightarrow> 'a outcome" where
  "throw e w = Some (Inl e, w)"

definition andThen :: "(world \<Rightarrow> 'a outcome) \<Rightarrow> ('a \<Rightarrow> world \<Rightarrow> 'b outcome) \<Rightarrow> world \<Rightarrow> 'b outcome" where
  "andThen m f w =
     (case m w of
        None \<Rightarrow> None
      | Some (Inl e, w') \<Rightarrow> Some (Inl e, w')
      | Some (Inr x, w') \<Rightarrow> f x w')"

text \<open>
  The collaborators the module calls but does not define: the three capabilities of a
  child instance and \<open>ReactInstanceHandles.getParentID\<close>.  They are parameters of the
  model; a capability may change the world in any way, throw, or call back into
  \<open>updateChildren\<close>.  The transaction argument is passed through unread and is left out.
\<close>

record collab =
  mountComponent :: "ref \<Rightarrow> string \<Rightarrow> world \<Rightarrow> string outcome"
  receiveProps :: "ref \<Rightarrow> nat \<Rightarrow> world \<Rightarrow> unit outcome"
  unmountComponent :: "ref \<Rightarrow> world \<Rightarrow> unit outcome"
  getParentID :: "string \<Rightarrow> string"

definition num :: "int option \<Rightarrow> int" where
  "num v = (case v of None \<Rightarrow> 0 | Some n \<Rightarrow> n)"

definition childAt :: "children \<Rightarrow> string \<Rightarrow> ref option" where
  "childAt m name = (case map_of m name of None \<Rightarrow> None | Some v \<Rightarrow> v)"

definition upd :: "ref \<Rightarrow> (component \<Rightarrow> component) \<Rightarrow> world \<Rightarrow> world" where
  "upd r f w = w\<lparr>heap := (heap w)(r := f (heap w r))\<rparr>"

section \<open>The update queue\<close>

definition shouldUpdateChild :: "(ref \<Rightarrow> component) \<Rightarrow> ref option \<Rightarrow> ref option \<Rightarrow> bool" where
  "shouldUpdateChild h curChild newChild =
     (case curChild of
        None \<Rightarrow> False
      | Some c \<Rightarrow> (case newChild of None \<Rightarrow> False | Some n \<Rightarrow> ctor (h c) = ctor (h n)))"

definition enqueueMarkup :: "string \<Rightarrow> string \<Rightarrow> int option \<Rightarrow> world \<Rightarrow> world" where
  "enqueueMarkup pID markup toIdx w =
     w\<lparr>updateQueue := updateQueue w @
          [\<lparr>parentID = pID, utype = INSERT_MARKUP,
            markupIndex = Some (length (markupQueue w)), textContent = None,
            uNodeCount = None, fromIndex = None, toIndex = toIdx\<rparr>],
       markupQueue := markupQueue w @ [markup]\<rparr>"

definition enqueueReplaceWithMarkup :: "string \<Rightarrow> string \<Rightarrow> world \<Rightarrow> world" where
  "enqueueReplaceWithMarkup pID markup w =
     w\<lparr>updateQueue := updateQueue w @
          [\<lparr>parentID = pID, utype = REPLACE_WITH_MARKUP,
            markupIndex = Some (length (markupQueue w)), textContent = None,
            uNodeCount = None, fromIndex = None, toIndex = None\<rparr>],
       markupQueue := markupQueue w @ [markup]\<rparr>"

definition enqueueMove :: "string \<Rightarrow> int option \<Rightarrow> int option \<Rightarrow> int option \<Rightarrow> world \<Rightarrow> world" where
  "enqueueMove pID cnt fromIdx toIdx w =
     w\<lparr>updateQueue := updateQueue w @
          [\<lparr>parentID = pID, utype = MOVE_EXISTING, markupIndex = None, textContent = None,
            uNodeCount = cnt, fromIndex = fromIdx, toIndex = toIdx\<rparr>]\<rparr>"

definition enqueueRemove :: "string \<Rightarrow> int option \<Rightarrow> int option \<Rightarrow> world \<Rightarrow> world" where
  "enqueueRemove pID cnt fromIdx w =
     w\<lparr>updateQueue := updateQueue w @
          [\<lparr>parentID = pID, utype = REMOVE_NODE, markupIndex = None, textContent = None,
            uNodeCount = cnt, fromIndex = fromIdx, toIndex = None\<rparr>]\<rparr>"

definition enqueueTextContent :: "string \<Rightarrow> string \<Rightarrow> world \<Rightarrow> world" where
  "enqueueTextContent pID content w =
     w\<lparr>updateQueue := updateQueue w @
          [\<lparr>parentID = pID, utype = TEXT_CONTENT, markupIndex = None,
            textContent = Some content, uNodeCount = None, fromIndex = None,
            toIndex = None\<rparr>]\<rparr>"

definition clearQueue :: "world \<Rightarrow> world" where
  "clearQueue w = w\<lparr>updateQueue := [], markupQueue := []\<rparr>"

definition processQueue :: "world \<Rightarrow> world" where
  "processQueue w =
     (if updateQueue w \<noteq> []
      then clearQueue (w\<lparr>applied := applied w @ [(updateQueue w, markupQueue w)]\<rparr>)
      else w)"

section \<open>Mounting and unmounting\<close>

text \<open>The body of the loop of \<open>mountChildren\<close>; the state is \<open>(mountImages, index, lastChild)\<close>.\<close>

fun mountChildren_loop ::
  "collab \<Rightarrow> ref \<Rightarrow> string \<Rightarrow> children \<Rightarrow> string list \<times> int \<times> ref option \<Rightarrow> world
    \<Rightarrow> (string list \<times> int \<times> ref option) outcome" where
  "mountChildren_loop C component idPrefix [] st w = ok st w"
| "mountChildren_loop C component idPrefix ((name, None) # rest) st w =
     mountChildren_loop C component idPrefix rest st w"
| "mountChildren_loop C component idPrefix ((name, Some child) # rest) (mountImages, index, lastChild) w =
     andThen (mountComponent C child (idPrefix @ name))
       (\<lambda>mountImage w1.
          let w2 = (if lastChild = None
                    then upd component (\<lambda>c. c\<lparr>firstRenderedChild := Some child\<rparr>) w1
                    else w1);
              w3 = upd child (\<lambda>c. c\<lparr>parentComponent := Some component\<rparr>) w2;
              w4 = upd child (\<lambda>c. c\<lparr>previousSibling := lastChild\<rparr>) w3
          in mountChildren_loop C component idPrefix rest
               (mountImages @ [mountImage], index + num (nodeCount (heap w4 child)), Some child) w4)
       w"

definition mountChildren ::
  "collab \<Rightarrow> ref \<Rightarrow> string \<Rightarrow> children option \<Rightarrow> world \<Rightarrow> string list outcome" where
  "mountChildren C component idPrefix childrenMap w =
     andThen
       (mountChildren_loop C component idPrefix
          (case childrenMap of None \<Rightarrow> [] | Some m \<Rightarrow> m) ([], 0, None))
       (\<lambda>(mountImages, index, lastChild) w1.
          let w2 = upd component (\<lambda>c. c\<lparr>renderedChildren := childrenMap\<rparr>) w1;
              w3 = (if rootNodeID (heap w2 component) = idPrefix
                    then upd component (\<lambda>c. c\<lparr>nodeCount := Some index\<rparr>) w2
                    else w2)
          in ok mountImages w3)
       w"

fun unmountChildren_loop :: "collab \<Rightarrow> children \<Rightarrow> world \<Rightarrow> unit outcome" where
  "unmountChildren_loop C [] w = ok () w"
| "unmountChildren_loop C ((name, None) # rest) w = unmountChildren_loop C rest w"
| "unmountChildren_loop C ((name, Some renderedChild) # rest) w =
     (if isComponent (heap w renderedChild)
      then andThen
             (unmountComponent C renderedChild)
             (\<lambda>_. unmountChildren_loop C rest)
             (upd renderedChild
                (\<lambda>c. c\<lparr>mountIndex := None, parentComponent := None, previousSibling := None\<rparr>) w)
      else unmountChildren_loop C rest w)"

definition unmountChildren :: "collab \<Rightarrow> ref \<Rightarrow> world \<Rightarrow> unit outcome" where
  "unmountChildren C component w =
     andThen
       (unmountChildren_loop C
          (case renderedChildren (heap w component) of None \<Rightarrow> [] | Some m \<Rightarrow> m))
       (\<lambda>_ w1. ok () (upd component (\<lambda>c. c\<lparr>renderedChildren := None, nodeCount := None\<rparr>) w1))
       w"

section \<open>The child diff engine\<close>

definition moveChild :: "string \<Rightarrow> ref \<Rightarrow> int \<Rightarrow> int \<Rightarrow> world \<Rightarrow> world" where
  "moveChild nodeID child toIdx lastIndex w =
     (if num (mountIndex (heap w child)) < lastIndex
      then enqueueMove nodeID (nodeCount (heap w child)) (mountIndex (heap w child)) (Some toIdx) w
      else w)"

definition createChild :: "string \<Rightarrow> ref \<Rightarrow> string \<Rightarrow> world \<Rightarrow> world" where
  "createChild nodeID child mountImage w =
     enqueueMarkup nodeID mountImage (mountIndex (heap w child)) w"

definition removeChild :: "string \<Rightarrow> ref \<Rightarrow> world \<Rightarrow> world" where
  "removeChild nodeID child w =
     enqueueRemove nodeID (nodeCount (heap w child)) (mountIndex (heap w child)) w"

definition setTextContent :: "string \<Rightarrow> string \<Rightarrow> world \<Rightarrow> world" where
  "setTextContent nodeID content w = enqueueTextContent nodeID content w"

text \<open>
  \<open>_mountChildByNameAtIndex\<close>.  The parameter \<open>index\<close> is not read by the body: the
  record that \<open>createChild\<close> enqueues takes its destination from the child's own
  \<open>_mountIndex\<close> field.
\<close>

definition priv_mountChildByNameAtIndex ::
  "collab \<Rightarrow> ref \<Rightarrow> string \<Rightarrow> string \<Rightarrow> ref \<Rightarrow> string \<Rightarrow> int \<Rightarrow> world \<Rightarrow> unit outcome" where
  "priv_mountChildByNameAtIndex C component nodeID idPrefix child name index w =
     andThen (mountComponent C child (idPrefix @ name))
       (\<lambda>mountImage w1.
          let w2 = upd child (\<lambda>c. c\<lparr>parentComponent := Some component\<rparr>) w1;
              w3 = createChild nodeID child mountImage w2;
              m = (case renderedChildren (heap w3 component) of None \<Rightarrow> [] | Some m \<Rightarrow> m)
          in ok () (upd component
                      (\<lambda>c. c\<lparr>renderedChildren := Some (AList.update name (Some child) m)\<rparr>) w3))
       w"

text \<open>\<open>delete component._renderedChildren[name]\<close>; deleting a property of \<open>null\<close> throws.\<close>

definition deleteRendered :: "ref \<Rightarrow> string \<Rightarrow> world \<Rightarrow> unit outcome" where
  "deleteRendered component name w =
     (case renderedChildren (heap w component) of
        None \<Rightarrow> throw TypeError w
      | Some m \<Rightarrow>
          ok () (upd component (\<lambda>c. c\<lparr>renderedChildren := Some (AList.delete name m)\<rparr>) w))"

definition priv_unmountChildByName ::
  "collab \<Rightarrow> ref \<Rightarrow> string \<Rightarrow> ref \<Rightarrow> string \<Rightarrow> world \<Rightarrow> unit outcome" where
  "priv_unmountChildByName C component nodeID child name w =
     (if isComponent (heap w child)
      then
        (let w1 = removeChild nodeID child w;
             w2 = upd child
                    (\<lambda>c. c\<lparr>mountIndex := None, parentComponent := None, previousSibling := None\<rparr>)
                    w1
         in andThen (unmountComponent C child) (\<lambda>_. deleteRendered component name) w2)
      else ok () w)"

text \<open>
  The walk that computes \<open>nodeCountBefore\<close>: the inner loop follows \<open>_previousSibling\<close>
  and adds each sibling's count, the outer loop then steps to \<open>_parentComponent\<close>.
  On a cyclic store neither returns.
\<close>

partial_function (option) previousSibling_loop ::
  "(ref \<Rightarrow> component) \<Rightarrow> ref \<Rightarrow> int \<Rightarrow> (ref \<times> int) option" where
  "previousSibling_loop h cur nodeCountBefore =
     (case previousSibling (h cur) of
        None \<Rightarrow> Some (cur, nodeCountBefore)
      | Some s \<Rightarrow> previousSibling_loop h s (nodeCountBefore + num (nodeCount (h s))))"

partial_function (option) nodeCountBefore_loop ::
  "(ref \<Rightarrow> component) \<Rightarrow> string \<Rightarrow> ref option \<Rightarrow> int \<Rightarrow> int option" where
  "nodeCountBefore_loop h nodeID cur nodeCountBefore =
     (case cur of
        None \<Rightarrow> Some nodeCountBefore
      | Some c \<Rightarrow>
          if rootNodeID (h c) = nodeID then Some nodeCountBefore
          else (case previousSibling_loop h c nodeCountBefore of
                  None \<Rightarrow> None
                | Some (c', n') \<Rightarrow> nodeCountBefore_loop h nodeID (parentComponent (h c')) n'))"

declare previousSibling_loop.simps [code]

declare nodeCountBefore_loop.simps [code]

text \<open>
  The first pass: every truthy previous child gets the running total of the counts of
  the children before it.  The total itself is reset before the second pass and is not
  returned.
\<close>

fun firstPass :: "children \<Rightarrow> int \<Rightarrow> (ref \<Rightarrow> component) \<Rightarrow> (ref \<Rightarrow> component)" where
  "firstPass [] lastIndex h = h"
| "firstPass ((name, None) # rest) lastIndex h = firstPass rest lastIndex h"
| "firstPass ((name, Some prevChild) # rest) lastIndex h =
     (let h1 = h(prevChild := (h prevChild)\<lparr>mountIndex := Some lastIndex\<rparr>)
      in firstPass rest (lastIndex + num (nodeCount (h1 prevChild))) h1)"

text \<open>
  \<open>prevChildren && prevChildren[name]\<close>: the variable \<open>prevChildren\<close> is either \<open>null\<close>
  for the whole call or an alias of the object in \<open>component._renderedChildren\<close>, which
  \<open>_mountChildByNameAtIndex\<close> and \<open>_unmountChildByName\<close> mutate.
\<close>

definition prevChildAt :: "bool \<Rightarrow> ref \<Rightarrow> string \<Rightarrow> world \<Rightarrow> ref option" where
  "prevChildAt prevIsNull component name w =
     (if prevIsNull then None
      else (case renderedChildren (heap w component) of
              None \<Rightarrow> None
            | Some m \<Rightarrow> childAt m name))"

text \<open>The two branches of the \<open>if\<close> in the second pass; each returns \<open>(lastIndex, mountedChild)\<close>.\<close>

definition reuse_branch ::
  "collab \<Rightarrow> string \<Rightarrow> ref \<Rightarrow> ref \<Rightarrow> int \<Rightarrow> int \<Rightarrow> world \<Rightarrow> (int \<times> ref option) outcome" where
  "reuse_branch C nodeID prevChild nextChild nextIndex lastIndex w =
     (let lastIndex' = max (num (mountIndex (heap w prevChild))) lastIndex
      in andThen (receiveProps C prevChild (props (heap w nextChild)))
           (\<lambda>_ w1. ok (lastIndex', Some prevChild)
                      (moveChild nodeID prevChild nextIndex lastIndex' w1))
           w)"

definition replace_branch ::
  "collab \<Rightarrow> ref \<Rightarrow> string \<Rightarrow> string \<Rightarrow> ref option \<Rightarrow> ref option \<Rightarrow> string \<Rightarrow> int \<Rightarrow> int
    \<Rightarrow> world \<Rightarrow> (int \<times> ref option) outcome" where
  "replace_branch C component nodeID idPrefix prevChild nextChild name nextIndex lastIndex w =
     andThen
       (case prevChild of
          None \<Rightarrow> ok lastIndex
        | Some p \<Rightarrow>
            (\<lambda>w0. andThen (priv_unmountChildByName C component nodeID p name)
                     (\<lambda>_. ok (max (num (mountIndex (heap w0 p))) lastIndex)) w0))
       (\<lambda>lastIndex'.
          case nextChild of
            None \<Rightarrow> ok (lastIndex', None)
          | Some n \<Rightarrow>
              andThen (priv_mountChildByNameAtIndex C component nodeID idPrefix n name nextIndex)
                (\<lambda>_. ok (lastIndex', Some n)))
       w"

text \<open>One iteration of the second pass; the loop state is \<open>(lastIndex, nextIndex, lastChild)\<close>.\<close>

definition secondPass_step ::
  "collab \<Rightarrow> ref \<Rightarrow> string \<Rightarrow> string \<Rightarrow> bool \<Rightarrow> string \<times> ref option
    \<Rightarrow> int \<times> int \<times> ref option \<Rightarrow> world \<Rightarrow> (int \<times> int \<times> ref option) outcome" where
  "secondPass_step C component nodeID idPrefix prevIsNull entry st w =
     (case entry of (name, nextChild) \<Rightarrow>
      case st of (lastIndex, nextIndex, lastChild) \<Rightarrow>
        let prevChild = prevChildAt prevIsNull component name w in
        andThen
          (case (prevChild, nextChild) of
             (Some p, Some n) \<Rightarrow>
               if shouldUpdateChild (heap w) prevChild nextChild
               then reuse_branch C nodeID p n nextIndex lastIndex
               else replace_branch C component nodeID idPrefix prevChild nextChild name
                      nextIndex lastIndex
           | _ \<Rightarrow> replace_branch C component nodeID idPrefix prevChild nextChild name
                    nextIndex lastIndex)
          (\<lambda>(lastIndex', mountedChild) w1.
             case mountedChild of
               None \<Rightarrow> ok (lastIndex', nextIndex, lastChild) w1
             | Some m \<Rightarrow>
                 let w2 = (if lastChild = None
                           then upd component (\<lambda>c. c\<lparr>firstRenderedChild := Some m\<rparr>) w1
                           else w1);
                     w3 = upd m (\<lambda>c. c\<lparr>previousSibling := lastChild\<rparr>) w2
                 in ok (lastIndex', nextIndex + num (nodeCount (heap w3 m)), Some m) w3)
          w)"

fun secondPass ::
  "collab \<Rightarrow> ref \<Rightarrow> string \<Rightarrow> string \<Rightarrow> bool \<Rightarrow> children
    \<Rightarrow> int \<times> int \<times> ref option \<Rightarrow> world \<Rightarrow> (int \<times> int \<times> ref option) outcome" where
  "secondPass C component nodeID idPrefix prevIsNull [] st w = ok st w"
| "secondPass C component nodeID idPrefix prevIsNull (entry # rest) st w =
     andThen (secondPass_step C component nodeID idPrefix prevIsNull entry st)
       (secondPass C component nodeID idPrefix prevIsNull rest) w"

text \<open>
  The third pass visits the keys that \<open>prevChildren\<close> holds when the pass starts and
  reads each value from the object as it is then.
\<close>

fun thirdPass ::
  "collab \<Rightarrow> ref \<Rightarrow> string \<Rightarrow> children option \<Rightarrow> string list \<Rightarrow> world \<Rightarrow> unit outcome" where
  "thirdPass C component nodeID nextChildren [] w = ok () w"
| "thirdPass C component nodeID nextChildren (name # rest) w =
     (case prevChildAt False component name w of
        None \<Rightarrow> thirdPass C component nodeID nextChildren rest w
      | Some p \<Rightarrow>
          if (case nextChildren of None \<Rightarrow> False | Some nm \<Rightarrow> childAt nm name \<noteq> None)
          then thirdPass C component nodeID nextChildren rest w
          else andThen (priv_unmountChildByName C component nodeID p name)
                 (\<lambda>_. thirdPass C component nodeID nextChildren rest) w)"

text \<open>The walk up the parents that adds \<open>nodeCountDiff\<close> to each ancestor's count.\<close>

partial_function (option) ancestor_loop ::
  "string \<Rightarrow> int \<Rightarrow> ref option \<Rightarrow> world \<Rightarrow> world option" where
  "ancestor_loop nodeID nodeCountDiff ancestor w =
     (case ancestor of
        None \<Rightarrow> Some w
      | Some a \<Rightarrow>
          if rootNodeID (heap w a) = nodeID then Some w
          else ancestor_loop nodeID nodeCountDiff (parentComponent (heap w a))
                 (upd a (\<lambda>c. c\<lparr>nodeCount := Some (num (nodeCount c) + nodeCountDiff)\<rparr>) w))"

declare ancestor_loop.simps [code]

definition resolveNodeID :: "collab \<Rightarrow> ref \<Rightarrow> string \<Rightarrow> world \<Rightarrow> string" where
  "resolveNodeID C component idPrefix w =
     (if idPrefix \<noteq> [] \<and> last idPrefix = CHR ''.''
      then rootNodeID (heap w component)
      else getParentID C (rootNodeID (heap w component)))"

text \<open>The branch of \<open>_updateChildren\<close> taken when \<open>nodeID\<close> is the empty string.\<close>

definition rootReplacement ::
  "collab \<Rightarrow> ref \<Rightarrow> children option \<Rightarrow> world \<Rightarrow> unit outcome" where
  "rootReplacement C component nextChildren w =
     (case renderedChildren (heap w component) of
        None \<Rightarrow> throw TypeError w
      | Some pm \<Rightarrow>
         (case nextChildren of
            None \<Rightarrow> throw TypeError w
          | Some nm \<Rightarrow>
             (let prevChild = childAt pm []; nextChild = childAt nm [] in
              case (prevChild, nextChild) of
                (None, _) \<Rightarrow> throw TypeError w
              | (Some p, None) \<Rightarrow>
                  andThen (unmountComponent C p) (\<lambda>_. throw TypeError) w
              | (Some p, Some n) \<Rightarrow>
                  if shouldUpdateChild (heap w) prevChild nextChild
                  then receiveProps C p (props (heap w n)) w
                  else
                    (let prevID = rootNodeID (heap w p);
                         nextID = rootNodeID (heap w component)
                     in andThen (unmountComponent C p)
                          (\<lambda>_. andThen (mountComponent C n nextID)
                                  (\<lambda>markup w1.
                                     let w2 = enqueueReplaceWithMarkup prevID markup w1 in
                                     case renderedChildren (heap w2 component) of
                                       None \<Rightarrow> throw TypeError w2
                                     | Some m \<Rightarrow>
                                         ok () (upd component
                                           (\<lambda>c. c\<lparr>renderedChildren :=
                                                     Some (AList.update [] (Some n) m)\<rparr>) w2)))
                          w))))"

definition keyedDiff ::
  "collab \<Rightarrow> ref \<Rightarrow> string \<Rightarrow> string \<Rightarrow> children option \<Rightarrow> world \<Rightarrow> unit outcome" where
  "keyedDiff C component nodeID idPrefix nextChildren w =
     (let prevChildren = renderedChildren (heap w component) in
      case nodeCountBefore_loop (heap w) nodeID (firstRenderedChild (heap w component)) 0 of
        None \<Rightarrow> None
      | Some nodeCountBefore \<Rightarrow>
          if nodeCountBefore \<noteq> 0 then throw (InvariantViolation ''y'') w
          else
            (let w1 = w\<lparr>heap := firstPass (case prevChildren of None \<Rightarrow> [] | Some m \<Rightarrow> m)
                                   nodeCountBefore (heap w)\<rparr>
             in andThen
                  (secondPass C component nodeID idPrefix (prevChildren = None)
                     (case nextChildren of None \<Rightarrow> [] | Some m \<Rightarrow> m) (0, 0, None))
                  (\<lambda>(lastIndex, nextIndex, lastChild) w2.
                     andThen
                       (thirdPass C component nodeID nextChildren
                          (if prevChildren = None then []
                           else (case renderedChildren (heap w2 component) of
                                   None \<Rightarrow> []
                                 | Some m \<Rightarrow> map fst m)))
                       (\<lambda>_ w3.
                          let nodeCountDiff = nextIndex - num (nodeCount (heap w3 component));
                              w4 = upd component
                                     (\<lambda>c. c\<lparr>nodeCount := Some (num (nodeCount c) + nodeCountDiff)\<rparr>) w3
                          in case ancestor_loop nodeID nodeCountDiff
                                    (parentComponent (heap w4 component)) w4 of
                               None \<Rightarrow> None
                             | Some w5 \<Rightarrow> ok () w5)
                       w2)
                  w1))"

definition priv_updateChildren ::
  "collab \<Rightarrow> ref \<Rightarrow> string \<Rightarrow> children option \<Rightarrow> world \<Rightarrow> unit outcome" where
  "priv_updateChildren C component idPrefix nextChildren w =
     (let nodeID = resolveNodeID C component idPrefix w in
      if nodeID = [] then rootReplacement C component nextChildren w
      else if nextChildren = None \<and> renderedChildren (heap w component) = None then ok () w
      else keyedDiff C component nodeID idPrefix nextChildren w)"

section \<open>The depth guard and the public entry points\<close>

text \<open>
  \<open>updateChildren\<close> and \<open>updateTextContent\<close> wrap their bodies in the same text:
  \<open>updateDepth++\<close>, the body inside \<open>try\<close>, and then either the \<open>catch\<close> block
  (\<open>updateDepth--\<close>, \<open>clearQueue\<close> at depth zero, rethrow) or the normal exit
  (\<open>updateDepth--\<close>, \<open>processQueue\<close> at depth zero).
\<close>

definition depthGuard :: "(world \<Rightarrow> unit outcome) \<Rightarrow> world \<Rightarrow> unit outcome" where
  "depthGuard body w =
     (case body (w\<lparr>updateDepth := updateDepth w + 1\<rparr>) of
        None \<Rightarrow> None
      | Some (Inl e, w1) \<Rightarrow>
          (let w2 = w1\<lparr>updateDepth := updateDepth w1 - 1\<rparr>
           in Some (Inl e, if updateDepth w2 \<noteq> 0 then w2 else clearQueue w2))
      | Some (Inr u, w1) \<Rightarrow>
          (let w2 = w1\<lparr>updateDepth := updateDepth w1 - 1\<rparr>
           in Some (Inr (), if updateDepth w2 \<noteq> 0 then w2 else processQueue w2)))"

definition updateChildren ::
  "collab \<Rightarrow> ref \<Rightarrow> string \<Rightarrow> children option \<Rightarrow> world \<Rightarrow> unit outcome" where
  "updateChildren C component idPrefix nextChildren =
     depthGuard (priv_updateChildren C component idPrefix nextChildren)"

text \<open>
  The \<open>try\<close> block of \<open>updateTextContent\<close>: \<open>invariant(false, ...)\<close> throws on the first
  key that \<open>for ... in\<close> enumerates, with the key substituted in the message.
\<close>

definition updateTextContent_body :: "ref \<Rightarrow> string \<Rightarrow> world \<Rightarrow> unit outcome" where
  "updateTextContent_body component nextContent w =
     (case renderedChildren (heap w component) of
        None \<Rightarrow> ok () (setTextContent (rootNodeID (heap w component)) nextContent w)
      | Some [] \<Rightarrow> ok () (setTextContent (rootNodeID (heap w component)) nextContent w)
      | Some ((name, v) # rest) \<Rightarrow>
          throw (InvariantViolation
                   (''ReactMultiChild: All children should be removed before '' @
                    ''updateTextContent is called; found child '' @ name @ ''.'')) w)"

definition updateTextContent :: "ref \<Rightarrow> string \<Rightarrow> world \<Rightarrow> unit outcome" where
  "updateTextContent component nextContent =
     depthGuard (updateTextContent_body component nextContent)"

section \<open>The unit-index diff engine\<close>

text \<open>
  The earlier revision of the module, in which every child occupies one position: its
  records carry no node count, \<open>nodeID\<close> is a parameter, \<open>_mountChildByNameAtIndex\<close>
  stores \<open>index\<close> in the child's \<open>_mountIndex\<close>, and a reused child's \<open>_mountIndex\<close>
  becomes \<open>nextIndex\<close>.  Its records are modelled with \<open>uNodeCount = None\<close>.
\<close>

definition enqueueMove_unit :: "string \<Rightarrow> int option \<Rightarrow> int option \<Rightarrow> world \<Rightarrow> world" where
  "enqueueMove_unit pID fromIdx toIdx w =
     w\<lparr>updateQueue := updateQueue w @
          [\<lparr>parentID = pID, utype = MOVE_EXISTING, markupIndex = None, textContent = None,
            uNodeCount = None, fromIndex = fromIdx, toIndex = toIdx\<rparr>]\<rparr>"

definition enqueueRemove_unit :: "string \<Rightarrow> int option \<Rightarrow> world \<Rightarrow> world" where
  "enqueueRemove_unit pID fromIdx w =
     w\<lparr>updateQueue := updateQueue w @
          [\<lparr>parentID = pID, utype = REMOVE_NODE, markupIndex = None, textContent = None,
            uNodeCount = None, fromIndex = fromIdx, toIndex = None\<rparr>]\<rparr>"

definition moveChild_unit :: "string \<Rightarrow> ref \<Rightarrow> int \<Rightarrow> int \<Rightarrow> world \<Rightarrow> world" where
  "moveChild_unit nodeID child toIdx lastIndex w =
     (if num (mountIndex (heap w child)) < lastIndex
      then enqueueMove_unit nodeID (mountIndex (heap w child)) (Some toIdx) w
      else w)"

definition removeChild_unit :: "string \<Rightarrow> ref \<Rightarrow> world \<Rightarrow> world" where
  "removeChild_unit nodeID child w = enqueueRemove_unit nodeID (mountIndex (heap w child)) w"

definition priv_mountChildByNameAtIndex_unit ::
  "collab \<Rightarrow> ref \<Rightarrow> string \<Rightarrow> string \<Rightarrow> ref \<Rightarrow> string \<Rightarrow> int \<Rightarrow> world \<Rightarrow> unit outcome" where
  "priv_mountChildByNameAtIndex_unit C component nodeID idPrefix child name index w =
     andThen (mountComponent C child (idPrefix @ name))
       (\<lambda>mountImage w1.
          let w2 = upd child (\<lambda>c. c\<lparr>mountIndex := Some index\<rparr>) w1;
              w3 = createChild nodeID child mountImage w2;
              m = (case renderedChildren (heap w3 component) of None \<Rightarrow> [] | Some m \<Rightarrow> m)
          in ok () (upd component
                      (\<lambda>c. c\<lparr>renderedChildren := Some (AList.update name (Some child) m)\<rparr>) w3))
       w"

definition priv_unmountChildByName_unit ::
  "collab \<Rightarrow> ref \<Rightarrow> string \<Rightarrow> ref \<Rightarrow> string \<Rightarrow> world \<Rightarrow> unit outcome" where
  "priv_unmountChildByName_unit C component nodeID child name w =
     (if isComponent (heap w child)
      then
        (let w1 = removeChild_unit nodeID child w;
             w2 = upd child (\<lambda>c. c\<lparr>mountIndex := None\<rparr>) w1
         in andThen (unmountComponent C child) (\<lambda>_. deleteRendered component name) w2)
      else ok () w)"

text \<open>The two branches of the \<open>if\<close> in the loop over the next children; each returns \<open>lastIndex\<close>.\<close>

definition reuse_branch_unit ::
  "collab \<Rightarrow> string \<Rightarrow> ref \<Rightarrow> ref \<Rightarrow> int \<Rightarrow> int \<Rightarrow> world \<Rightarrow> int outcome" where
  "reuse_branch_unit C nodeID prevChild nextChild nextIndex lastIndex w =
     (let w1 = moveChild_unit nodeID prevChild nextIndex lastIndex w;
          lastIndex' = max (num (mountIndex (heap w1 prevChild))) lastIndex
      in andThen (receiveProps C prevChild (props (heap w1 nextChild)))
           (\<lambda>_ w2. ok lastIndex' (upd prevChild (\<lambda>c. c\<lparr>mountIndex := Some nextIndex\<rparr>) w2))
           w1)"

definition replace_branch_unit ::
  "collab \<Rightarrow> ref \<Rightarrow> string \<Rightarrow> string \<Rightarrow> ref option \<Rightarrow> ref option \<Rightarrow> string \<Rightarrow> int \<Rightarrow> int
    \<Rightarrow> world \<Rightarrow> int outcome" where
  "replace_branch_unit C component nodeID idPrefix prevChild nextChild name nextIndex lastIndex w =
     andThen
       (case prevChild of
          None \<Rightarrow> ok lastIndex
        | Some p \<Rightarrow>
            (\<lambda>w0. andThen (priv_unmountChildByName_unit C component nodeID p name)
                     (\<lambda>_. ok (max (num (mountIndex (heap w0 p))) lastIndex)) w0))
       (\<lambda>lastIndex'.
          case nextChild of
            None \<Rightarrow> ok lastIndex'
          | Some n \<Rightarrow>
              andThen (priv_mountChildByNameAtIndex_unit C component nodeID idPrefix n name nextIndex)
                (\<lambda>_. ok lastIndex'))
       w"

definition secondPass_step_unit ::
  "collab \<Rightarrow> ref \<Rightarrow> string \<Rightarrow> string \<Rightarrow> bool \<Rightarrow> string \<times> ref option
    \<Rightarrow> int \<times> int \<Rightarrow> world \<Rightarrow> (int \<times> int) outcome" where
  "secondPass_step_unit C component nodeID idPrefix prevIsNull entry st w =
     (case entry of (name, nextChild) \<Rightarrow>
      case st of (lastIndex, nextIndex) \<Rightarrow>
        let prevChild = prevChildAt prevIsNull component name w in
        andThen
          (case (prevChild, nextChild) of
             (Some p, Some n) \<Rightarrow>
               if shouldUpdateChild (heap w) prevChild nextChild
               then reuse_branch_unit C nodeID p n nextIndex lastIndex
               else replace_branch_unit C component nodeID idPrefix prevChild nextChild name
                      nextIndex lastIndex
           | _ \<Rightarrow> replace_branch_unit C component nodeID idPrefix prevChild nextChild name
                    nextIndex lastIndex)
          (\<lambda>lastIndex'. ok (lastIndex', if nextChild \<noteq> None then nextIndex + 1 else nextIndex))
          w)"

fun secondPass_unit ::
  "collab \<Rightarrow> ref \<Rightarrow> string \<Rightarrow> string \<Rightarrow> bool \<Rightarrow> children
    \<Rightarrow> int \<times> int \<Rightarrow> world \<Rightarrow> (int \<times> int) outcome" where
  "secondPass_unit C component nodeID idPrefix prevIsNull [] st w = ok st w"
| "secondPass_unit C component nodeID idPrefix prevIsNull (entry # rest) st w =
     andThen (secondPass_step_unit C component nodeID idPrefix prevIsNull entry st)
       (secondPass_unit C component nodeID idPrefix prevIsNull rest) w"

fun thirdPass_unit ::
  "collab \<Rightarrow> ref \<Rightarrow> string \<Rightarrow> children option \<Rightarrow> string list \<Rightarrow> world \<Rightarrow> unit outcome" where
  "thirdPass_unit C component nodeID nextChildren [] w = ok () w"
| "thirdPass_unit C component nodeID nextChildren (name # rest) w =
     (case prevChildAt False component name w of
        None \<Rightarrow> thirdPass_unit C component nodeID nextChildren rest w
      | Some p \<Rightarrow>
          if (case nextChildren of None \<Rightarrow> False | Some nm \<Rightarrow> childAt nm name \<noteq> None)
          then thirdPass_unit C component nodeID nextChildren rest w
          else andThen (priv_unmountChildByName_unit C component nodeID p name)
                 (\<lambda>_. thirdPass_unit C component nodeID nextChildren rest) w)"

definition priv_updateChildren_unit ::
  "collab \<Rightarrow> ref \<Rightarrow> string \<Rightarrow> string \<Rightarrow> children option \<Rightarrow> world \<Rightarrow> unit outcome" where
  "priv_updateChildren_unit C component nodeID idPrefix nextChildren w =
     (let prevChildren = renderedChildren (heap w component) in
      if nextChildren = None \<and> prevChildren = None then ok () w
      else
        andThen
          (secondPass_unit C component nodeID idPrefix (prevChildren = None)
             (case nextChildren of None \<Rightarrow> [] | Some m \<Rightarrow> m) (0, 0))
          (\<lambda>_ w2.
             thirdPass_unit C component nodeID nextChildren
               (if prevChildren = None then []
                else (case renderedChildren (heap w2 component) of
                        None \<Rightarrow> []
                      | Some m \<Rightarrow> map fst m))
               w2)
          w)"

definition updateChildren_unit ::
  "collab \<Rightarrow> ref \<Rightarrow> string \<Rightarrow> string \<Rightarrow> children option \<Rightarrow> world \<Rightarrow> unit outcome" where
  "updateChildren_unit C component nodeID idPrefix nextChildren =
     depthGuard (priv_updateChildren_unit C component nodeID idPrefix nextChildren)"

section \<open>Leaf children\<close>

text \<open>
  The simplest children that fit the collaborator interface: \<open>mountComponent\<close> records the
  root identifier it is given and returns the markup \<open>mk child rootID\<close>, \<open>receiveProps\<close>
  stores the props, \<open>unmountComponent\<close> does nothing else, and each call is logged.
  Calling a capability on an object that is no component is a \<open>TypeError\<close>.
\<close>

definition logCall :: "call \<Rightarrow> world \<Rightarrow> world" where
  "logCall c w = w\<lparr>calls := calls w @ [c]\<rparr>"

definition leaf_mountComponent ::
  "(ref \<Rightarrow> string \<Rightarrow> string) \<Rightarrow> ref \<Rightarrow> string \<Rightarrow> world \<Rightarrow> string outcome" where
  "leaf_mountComponent mk child rootID w =
     (if isComponent (heap w child)
      then ok (mk child rootID)
             (logCall (Mount child rootID) (upd child (\<lambda>c. c\<lparr>rootNodeID := rootID\<rparr>) w))
      else throw TypeError w)"

definition leaf_receiveProps :: "ref \<Rightarrow> nat \<Rightarrow> world \<Rightarrow> unit outcome" where
  "leaf_receiveProps child nextProps w =
     (if isComponent (heap w child)
      then ok () (logCall (ReceiveProps child nextProps) (upd child (\<lambda>c. c\<lparr>props := nextProps\<rparr>) w))
      else throw TypeError w)"

definition leaf_unmountComponent :: "ref \<Rightarrow> world \<Rightarrow> unit outcome" where
  "leaf_unmountComponent child w =
     (if isComponent (heap w child) then ok () (logCall (Unmount child) w)
      else throw TypeError w)"

definition leaf :: "(string \<Rightarrow> string) \<Rightarrow> (ref \<Rightarrow> string \<Rightarrow> string) \<Rightarrow> collab" where
  "leaf gp mk =
     \<lparr>mountComponent = leaf_mountComponent mk, receiveProps = leaf_receiveProps,
      unmountComponent = leaf_unmountComponent, getParentID = gp\<rparr>"

text \<open>An identifier's parent: the identifier up to, and without, its last separator.\<close>

definition parentOfID :: "string \<Rightarrow> string" where
  "parentOfID ident = rev (drop 1 (dropWhile (\<lambda>c. c \<noteq> CHR ''.'') (rev ident)))"

text \<open>A fresh object: nothing set but its constructor, its props, its node count.\<close>

definition fresh :: "nat \<Rightarrow> nat \<Rightarrow> int \<Rightarrow> component" where
  "fresh k p n =
     \<lparr>rootNodeID = [], ctor = k, props = p, isComponent = True, mountIndex = None,
      nodeCount = Some n, parentComponent = None, previousSibling = None,
      firstRenderedChild = None, renderedChildren = None\<rparr>"

definition emptyWorld :: "(ref \<Rightarrow> component) \<Rightarrow> world" where
  "emptyWorld h =
     \<lparr>heap = h, updateDepth = 0, updateQueue = [], markupQueue = [], applied = [], calls = []\<rparr>"

section \<open>Vocabulary of the properties\<close>

definition invariantMessage :: "string \<Rightarrow> string" where
  "invariantMessage name =
     ''ReactMultiChild: All children should be removed before '' @
     ''updateTextContent is called; found child '' @ name @ ''.''"

definition textRecord :: "string \<Rightarrow> string \<Rightarrow> update" where
  "textRecord pID content =
     \<lparr>parentID = pID, utype = TEXT_CONTENT, markupIndex = None, textContent = Some content,
      uNodeCount = None, fromIndex = None, toIndex = None\<rparr>"

definition insertRecord :: "string \<Rightarrow> nat \<Rightarrow> int option \<Rightarrow> update" where
  "insertRecord pID mi toIdx =
     \<lparr>parentID = pID, utype = INSERT_MARKUP, markupIndex = Some mi, textContent = None,
      uNodeCount = None, fromIndex = None, toIndex = toIdx\<rparr>"

definition replaceRecord :: "string \<Rightarrow> nat \<Rightarrow> update" where
  "replaceRecord pID mi =
     \<lparr>parentID = pID, utype = REPLACE_WITH_MARKUP, markupIndex = Some mi, textContent = None,
      uNodeCount = None, fromIndex = None, toIndex = None\<rparr>"

definition moveRecord :: "string \<Rightarrow> int option \<Rightarrow> int option \<Rightarrow> int option \<Rightarrow> update" where
  "moveRecord pID cnt fromIdx toIdx =
     \<lparr>parentID = pID, utype = MOVE_EXISTING, markupIndex = None, textContent = None,
      uNodeCount = cnt, fromIndex = fromIdx, toIndex = toIdx\<rparr>"

definition removeRecord :: "string \<Rightarrow> int option \<Rightarrow> int option \<Rightarrow> update" where
  "removeRecord pID cnt fromIdx =
     \<lparr>parentID = pID, utype = REMOVE_NODE, markupIndex = None, textContent = None,
      uNodeCount = cnt, fromIndex = fromIdx, toIndex = None\<rparr>"

text \<open>
  A computation keeps the batch when, run at a positive depth, it leaves the depth as
  it found it, hands nothing to the output-applying collaborator, and only appends to
  the two queues, markup never without a record.
\<close>

definition sameBatch :: "world \<Rightarrow> world \<Rightarrow> bool" where
  "sameBatch w w' \<longleftrightarrow>
     updateDepth w' = updateDepth w \<and> applied w' = applied w \<and>
     prefix (updateQueue w) (updateQueue w') \<and> prefix (markupQueue w) (markupQueue w') \<and>
     (updateQueue w' = updateQueue w \<longrightarrow> markupQueue w' = markupQueue w)"

definition keepsBatch :: "(world \<Rightarrow> 'a outcome) \<Rightarrow> bool" where
  "keepsBatch f \<longleftrightarrow>
     (\<forall>w r w'. 0 < updateDepth w \<longrightarrow> f w = Some (r, w') \<longrightarrow> sameBatch w w')"

definition collab_ok :: "collab \<Rightarrow> bool" where
  "collab_ok C \<longleftrightarrow>
     (\<forall>r rootID. keepsBatch (mountComponent C r rootID)) \<and>
     (\<forall>r p. keepsBatch (receiveProps C r p)) \<and>
     (\<forall>r. keepsBatch (unmountComponent C r))"

text \<open>
  \<open>post f w Q\<close>: the computation \<open>f\<close> returns from the world \<open>w\<close>, and its outcome and
  the world it leaves satisfy \<open>Q\<close>.
\<close>

definition post :: "(world \<Rightarrow> 'a outcome) \<Rightarrow> world \<Rightarrow> (error + 'a \<Rightarrow> world \<Rightarrow> bool) \<Rightarrow> bool" where
  "post f w Q = (case f w of None \<Rightarrow> False | Some (r, w') \<Rightarrow> Q r w')"

text \<open>The object a component's rendered-children map holds under a key, if any.\<close>

definition renderedAt :: "ref \<Rightarrow> string \<Rightarrow> world \<Rightarrow> ref option" where
  "renderedAt c k w =
     (case renderedChildren (heap w c) of None \<Rightarrow> None | Some m \<Rightarrow> childAt m k)"

text \<open>The objects a children map holds, in iteration order.\<close>

fun childRefs :: "children \<Rightarrow> ref list" where
  "childRefs [] = []"
| "childRefs ((k, None) # rest) = childRefs rest"
| "childRefs ((k, Some r) # rest) = r # childRefs rest"

text \<open>
  The high-water mark: the largest previous position among the previous children under
  the keys of the next children processed so far (and zero).
\<close>

fun highWater :: "(ref \<Rightarrow> component) \<Rightarrow> children \<Rightarrow> children \<Rightarrow> int" where
  "highWater h pm [] = 0"
| "highWater h pm (e # es) =
     (case childAt pm (fst e) of
        None \<Rightarrow> highWater h pm es
      | Some q \<Rightarrow> max (num (mountIndex (h q))) (highWater h pm es))"

text \<open>
  The child that ends up mounted for an entry of the next children: the previous child
  when it is reused, the next child otherwise.  \<open>nextTotal\<close> adds up the node counts of
  these children.
\<close>

definition mountedOf :: "(ref \<Rightarrow> component) \<Rightarrow> ref option \<Rightarrow> ref option \<Rightarrow> ref option" where
  "mountedOf h prevChild nextChild =
     (if shouldUpdateChild h prevChild nextChild then prevChild else nextChild)"

fun nextTotal :: "(ref \<Rightarrow> component) \<Rightarrow> (string \<Rightarrow> ref option) \<Rightarrow> children \<Rightarrow> int" where
  "nextTotal h prev [] = 0"
| "nextTotal h prev ((k, v) # es) =
     (case mountedOf h (prev k) v of None \<Rightarrow> 0 | Some m \<Rightarrow> num (nodeCount (h m))) +
     nextTotal h prev es"

text \<open>
  \<open>below h nodeID start ancs\<close>: following \<open>_parentComponent\<close> from \<open>start\<close>, the objects
  \<open>ancs\<close> are those met before the first one whose root identifier is \<open>nodeID\<close> (or
  before the chain ends).
\<close>

fun below :: "(ref \<Rightarrow> component) \<Rightarrow> string \<Rightarrow> ref option \<Rightarrow> ref list \<Rightarrow> bool" where
  "below h nodeID start [] =
     (case start of None \<Rightarrow> True | Some a \<Rightarrow> rootNodeID (h a) = nodeID)"
| "below h nodeID start (a # as) =
     (start = Some a \<and> rootNodeID (h a) \<noteq> nodeID \<and> below h nodeID (parentComponent (h a)) as)"

text \<open>Where that walk stops: the object after the last of \<open>ancs\<close>, if there is one.\<close>

fun walkEnd :: "(ref \<Rightarrow> component) \<Rightarrow> ref option \<Rightarrow> ref list \<Rightarrow> ref option" where
  "walkEnd h start [] = start"
| "walkEnd h start (a # as) = walkEnd h (parentComponent (h a)) as"

fun target :: "call \<Rightarrow> ref" where
  "target (Mount r rootID) = r"
| "target (ReceiveProps r p) = r"
| "target (Unmount r) = r"

fun isReceiveProps :: "call \<Rightarrow> bool" where
  "isReceiveProps (ReceiveProps r p) = True"
| "isReceiveProps a = False"

text \<open>The running totals of a list of counts, from a starting total.\<close>

fun prefixSums :: "int \<Rightarrow> int list \<Rightarrow> int list" where
  "prefixSums l [] = []"
| "prefixSums l (x # xs) = l # prefixSums (l + x) xs"

text \<open>
  What the normal exit of an outermost call leaves (\<open>flushed\<close>: the queues handed over in
  one call, unless the update queue is empty, and then cleared) and what its exceptional
  exit leaves (\<open>discarded\<close>).
\<close>

definition flushed :: "world \<Rightarrow> world" where
  "flushed w =
     (if updateQueue w = [] then w\<lparr>updateDepth := 0\<rparr>
      else w\<lparr>updateDepth := 0, updateQueue := [], markupQueue := [],
             applied := applied w @ [(updateQueue w, markupQueue w)]\<rparr>)"

definition discarded :: "world \<Rightarrow> world" where
  "discarded w = w\<lparr>updateDepth := 0, updateQueue := [], markupQueue := []\<rparr>"

definition entered :: "world \<Rightarrow> world" where
  "entered w = w\<lparr>updateDepth := updateDepth w + 1\<rparr>"

definition markupOf :: "ref \<Rightarrow> string \<Rightarrow> string" where
  "markupOf r rootID = ''<'' @ rootID @ ''>''"

text \<open>
  Children whose \<open>receiveProps\<close> re-enters the module: after storing the props, the child
  sets its own text content through \<open>updateTextContent\<close>.
\<close>

definition textChild :: collab where
  "textChild =
     \<lparr>mountComponent = leaf_mountComponent markupOf,
      receiveProps = (\<lambda>child p. andThen (leaf_receiveProps child p)
                                  (\<lambda>_. updateTextContent child ''txt'')),
      unmountComponent = leaf_unmountComponent, getParentID = parentOfID\<rparr>"

text \<open>
  A component \<open>0\<close> with root identifier \<open>.0\<close> that has mounted three children under the
  keys \<open>a\<close>, \<open>b\<close>, \<open>c\<close> (the objects \<open>1\<close>, \<open>2\<close>, \<open>3\<close>, one node each); every other
  object is fresh.  \<open>nextCAB\<close> holds new objects of the same constructor under the keys
  \<open>c\<close>, \<open>a\<close>, \<open>b\<close>.
\<close>

definition heapABC :: "ref \<Rightarrow> component" where
  "heapABC =
     (\<lambda>r. fresh 0 0 1)
       (0 := (fresh 9 0 3)\<lparr>rootNodeID := ''.0'', firstRenderedChild := Some 1,
               renderedChildren := Some [(''a'', Some 1), (''b'', Some 2), (''c'', Some 3)]\<rparr>,
        1 := (fresh 0 0 1)\<lparr>rootNodeID := ''.0.a'', parentComponent := Some 0\<rparr>,
        2 := (fresh 0 0 1)\<lparr>rootNodeID := ''.0.b'', parentComponent := Some 0,
               previousSibling := Some 1\<rparr>,
        3 := (fresh 0 0 1)\<lparr>rootNodeID := ''.0.c'', parentComponent := Some 0,
               previousSibling := Some 2\<rparr>)"

definition nextCAB :: "children option" where
  "nextCAB = Some [(''c'', Some 6), (''a'', Some 4), (''b'', Some 5)]"

text \<open>The same store, except that the child under \<open>b\<close> still has a rendered child of its own.\<close>

definition heapABCx :: "ref \<Rightarrow> component" where
  "heapABCx = heapABC(2 := (heapABC 2)\<lparr>renderedChildren := Some [(''x'', Some 7)]\<rparr>)"

text \<open>
  A root-level component \<open>0\<close> (its identifier \<open>.0\<close> has the empty parent) whose single
  child, under the empty key, is the object \<open>1\<close> of constructor \<open>1\<close>; the objects \<open>2\<close> and
  \<open>3\<close> are fresh, of constructors \<open>2\<close> and \<open>1\<close>.
\<close>

definition heapRoot :: "ref \<Rightarrow> component" where
  "heapRoot =
     (\<lambda>r. fresh 0 0 1)
       (0 := (fresh 9 0 1)\<lparr>rootNodeID := ''.0'', firstRenderedChild := Some 1,
               renderedChildren := Some [([], Some 1)]\<rparr>,
        1 := (fresh 1 0 1)\<lparr>rootNodeID := ''.0'', parentComponent := Some 0\<rparr>,
        2 := fresh 2 7 1,
        3 := fresh 1 8 1)"

text \<open>
  A component \<open>0\<close> with root identifier \<open>.0\<close> that has mounted the objects \<open>1\<close> and \<open>2\<close>, of
  constructor \<open>1\<close>, under the keys \<open>a\<close> and \<open>x\<close>, at the consistent positions \<open>0\<close> and \<open>1\<close>.
  The next children \<open>nextAX\<close> hold the fresh objects \<open>3\<close>, of constructor \<open>1\<close>, under \<open>a\<close>
  and \<open>4\<close>, of constructor \<open>2\<close>, under \<open>x\<close>.
\<close>

definition heapAX :: "ref \<Rightarrow> component" where
  "heapAX =
     (\<lambda>r. fresh 0 0 1)
       (0 := (fresh 9 0 2)\<lparr>rootNodeID := ''.0'', firstRenderedChild := Some 1,
               renderedChildren := Some [(''a'', Some 1), (''x'', Some 2)]\<rparr>,
        1 := (fresh 1 0 1)\<lparr>rootNodeID := ''.0.a'', parentComponent := Some 0,
               mountIndex := Some 0\<rparr>,
        2 := (fresh 1 0 1)\<lparr>rootNodeID := ''.0.x'', parentComponent := Some 0,
               previousSibling := Some 1, mountIndex := Some 1\<rparr>,
        3 := fresh 1 0 1,
        4 := fresh 2 0 1)"

definition nextAX :: "children option" where
  "nextAX = Some [(''a'', Some 3), (''x'', Some 4)]"

text \<open>
  A component \<open>0\<close> with root identifier \<open>.0\<close> and no rendered children, and two fresh
  objects \<open>1\<close> and \<open>2\<close> that span two and three nodes.
\<close>

definition heapTwo :: "ref \<Rightarrow> component" where
  "heapTwo =
     (\<lambda>r. fresh 0 0 1)
       (0 := (fresh 9 0 0)\<lparr>rootNodeID := ''.0''\<rparr>, 1 := fresh 1 0 2, 2 := fresh 1 0 3)"

definition childrenAB :: "children" where
  "childrenAB = [(''a'', Some 1), (''b'', Some 2)]"

text \<open>
  A component \<open>0\<close> with root identifier \<open>.0\<close> whose only child, under \<open>x\<close>, is the
  component \<open>1\<close> with root identifier \<open>.0.x\<close>.  Component \<open>1\<close> has one rendered child,
  under \<open>a\<close>: the object \<open>2\<close>.  The objects \<open>3\<close> and \<open>4\<close> are fresh, of the constructor
  of \<open>2\<close>.  Every object is one node.
\<close>

definition heapNested :: "ref \<Rightarrow> component" where
  "heapNested =
     (\<lambda>r. fresh 0 0 1)
       (0 := (fresh 9 0 1)\<lparr>rootNodeID := ''.0'', firstRenderedChild := Some 1,
               renderedChildren := Some [(''x'', Some 1)]\<rparr>,
        1 := (fresh 8 0 1)\<lparr>rootNodeID := ''.0.x'', parentComponent := Some 0,
               firstRenderedChild := Some 2, renderedChildren := Some [(''a'', Some 2)]\<rparr>,
        2 := (fresh 1 0 1)\<lparr>rootNodeID := ''.0.x.a'', parentComponent := Some 1\<rparr>,
        3 := fresh 1 5 1,
        4 := fresh 1 6 1)"

definition heapWithChild :: "ref \<Rightarrow> component" where
  "heapWithChild =
     (\<lambda>r. fresh 0 0 1)
       (0 := (fresh 9 0 1)\<lparr>rootNodeID := ''.0'', renderedChildren := Some [(''a'', Some 1)]\<rparr>)"

definition heapNoChild :: "ref \<Rightarrow> component" where
  "heapNoChild = (\<lambda>r. fresh 0 0 1)(0 := (fresh 9 0 1)\<lparr>rootNodeID := ''.0''\<rparr>)"

section \<open>Basic facts\<close>

lemma andThen_ok [simp]: "andThen (ok x) f w = f x w"
  by (simp add: andThen_def ok_def)

lemma andThen_throw [simp]: "andThen (throw e) f w = throw e w"
  by (simp add: andThen_def throw_def)

lemma andThen_cases:
  "andThen m f w = Some (r, w') \<longleftrightarrow>
     (\<exists>e. m w = Some (Inl e, w') \<and> r = Inl e) \<or>
     (\<exists>x w1. m w = Some (Inr x, w1) \<and> f x w1 = Some (r, w'))"
  by (auto simp: andThen_def split: option.splits sum.splits prod.splits)

lemma heap_upd: "heap (upd r f w) = (heap w)(r := f (heap w r))"
  by (simp add: upd_def)

lemma upd_fields [simp]:
  "updateDepth (upd r f w) = updateDepth w"
  "updateQueue (upd r f w) = updateQueue w"
  "markupQueue (upd r f w) = markupQueue w"
  "applied (upd r f w) = applied w"
  "calls (upd r f w) = calls w"
  by (simp_all add: upd_def)

lemma field_upd [simp]:
  "nodeCount (heap (upd r f w) x) =
     (if x = r \<and> nodeCount (f (heap w r)) \<noteq> nodeCount (heap w r)
      then nodeCount (f (heap w r)) else nodeCount (heap w x))"
  "ctor (heap (upd r f w) x) =
     (if x = r \<and> ctor (f (heap w r)) \<noteq> ctor (heap w r)
      then ctor (f (heap w r)) else ctor (heap w x))"
  "isComponent (heap (upd r f w) x) =
     (if x = r \<and> isComponent (f (heap w r)) \<noteq> isComponent (heap w r)
      then isComponent (f (heap w r)) else isComponent (heap w x))"
  "props (heap (upd r f w) x) =
     (if x = r \<and> props (f (heap w r)) \<noteq> props (heap w r)
      then props (f (heap w r)) else props (heap w x))"
  "rootNodeID (heap (upd r f w) x) =
     (if x = r \<and> rootNodeID (f (heap w r)) \<noteq> rootNodeID (heap w r)
      then rootNodeID (f (heap w r)) else rootNodeID (heap w x))"
  "mountIndex (heap (upd r f w) x) =
     (if x = r \<and> mountIndex (f (heap w r)) \<noteq> mountIndex (heap w r)
      then mountIndex (f (heap w r)) else mountIndex (heap w x))"
  "parentComponent (heap (upd r f w) x) =
     (if x = r \<and> parentComponent (f (heap w r)) \<noteq> parentComponent (heap w r)
      then parentComponent (f (heap w r)) else parentComponent (heap w x))"
  "previousSibling (heap (upd r f w) x) =
     (if x = r \<and> previousSibling (f (heap w r)) \<noteq> previousSibling (heap w r)
      then previousSibling (f (heap w r)) else previousSibling (heap w x))"
  "firstRenderedChild (heap (upd r f w) x) =
     (if x = r \<and> firstRenderedChild (f (heap w r)) \<noteq> firstRenderedChild (heap w r)
      then firstRenderedChild (f (heap w r)) else firstRenderedChild (heap w x))"
  "renderedChildren (heap (upd r f w) x) =
     (if x = r \<and> renderedChildren (f (heap w r)) \<noteq> renderedChildren (heap w r)
      then renderedChildren (f (heap w r)) else renderedChildren (heap w x))"
  by (auto simp: upd_def)

lemma logCall_fields [simp]:
  "heap (logCall c w) = heap w"
  "updateDepth (logCall c w) = updateDepth w"
  "updateQueue (logCall c w) = updateQueue w"
  "markupQueue (logCall c w) = markupQueue w"
  "applied (logCall c w) = applied w"
  "calls (logCall c w) = calls w @ [c]"
  by (simp_all add: logCall_def)

lemma enqueueMarkup_fields [simp]:
  "heap (enqueueMarkup p m t w) = heap w"
  "updateDepth (enqueueMarkup p m t w) = updateDepth w"
  "updateQueue (enqueueMarkup p m t w) = updateQueue w @ [insertRecord p (length (markupQueue w)) t]"
  "markupQueue (enqueueMarkup p m t w) = markupQueue w @ [m]"
  "applied (enqueueMarkup p m t w) = applied w"
  "calls (enqueueMarkup p m t w) = calls w"
  by (simp_all add: enqueueMarkup_def insertRecord_def)

lemma enqueueReplaceWithMarkup_fields [simp]:
  "heap (enqueueReplaceWithMarkup p m w) = heap w"
  "updateDepth (enqueueReplaceWithMarkup p m w) = updateDepth w"
  "updateQueue (enqueueReplaceWithMarkup p m w) =
     updateQueue w @ [replaceRecord p (length (markupQueue w))]"
  "markupQueue (enqueueReplaceWithMarkup p m w) = markupQueue w @ [m]"
  "applied (enqueueReplaceWithMarkup p m w) = applied w"
  "calls (enqueueReplaceWithMarkup p m w) = calls w"
  by (simp_all add: enqueueReplaceWithMarkup_def replaceRecord_def)

lemma enqueueMove_fields [simp]:
  "heap (enqueueMove p n f t w) = heap w"
  "updateDepth (enqueueMove p n f t w) = updateDepth w"
  "updateQueue (enqueueMove p n f t w) = updateQueue w @ [moveRecord p n f t]"
  "markupQueue (enqueueMove p n f t w) = markupQueue w"
  "applied (enqueueMove p n f t w) = applied w"
  "calls (enqueueMove p n f t w) = calls w"
  by (simp_all add: enqueueMove_def moveRecord_def)

lemma enqueueRemove_fields [simp]:
  "heap (enqueueRemove p n f w) = heap w"
  "updateDepth (enqueueRemove p n f w) = updateDepth w"
  "updateQueue (enqueueRemove p n f w) = updateQueue w @ [removeRecord p n f]"
  "markupQueue (enqueueRemove p n f w) = markupQueue w"
  "applied (enqueueRemove p n f w) = applied w"
  "calls (enqueueRemove p n f w) = calls w"
  by (simp_all add: enqueueRemove_def removeRecord_def)

lemma enqueueTextContent_fields [simp]:
  "heap (enqueueTextContent p c w) = heap w"
  "updateDepth (enqueueTextContent p c w) = updateDepth w"
  "updateQueue (enqueueTextContent p c w) = updateQueue w @ [textRecord p c]"
  "markupQueue (enqueueTextContent p c w) = markupQueue w"
  "applied (enqueueTextContent p c w) = applied w"
  "calls (enqueueTextContent p c w) = calls w"
  by (simp_all add: enqueueTextContent_def textRecord_def)

lemma moveChild_fields [simp]:
  "heap (moveChild nodeID child t l w) = heap w"
  "updateDepth (moveChild nodeID child t l w) = updateDepth w"
  "updateQueue (moveChild nodeID child t l w) =
     updateQueue w @
       (if num (mountIndex (heap w child)) < l
        then [moveRecord nodeID (nodeCount (heap w child)) (mountIndex (heap w child)) (Some t)]
        else [])"
  "markupQueue (moveChild nodeID child t l w) = markupQueue w"
  "applied (moveChild nodeID child t l w) = applied w"
  "calls (moveChild nodeID child t l w) = calls w"
  by (simp_all add: moveChild_def)

lemma createChild_fields [simp]:
  "heap (createChild nodeID child m w) = heap w"
  "updateDepth (createChild nodeID child m w) = updateDepth w"
  "updateQueue (createChild nodeID child m w) =
     updateQueue w @ [insertRecord nodeID (length (markupQueue w)) (mountIndex (heap w child))]"
  "markupQueue (createChild nodeID child m w) = markupQueue w @ [m]"
  "applied (createChild nodeID child m w) = applied w"
  "calls (createChild nodeID child m w) = calls w"
  by (simp_all add: createChild_def)

lemma removeChild_fields [simp]:
  "heap (removeChild nodeID child w) = heap w"
  "updateDepth (removeChild nodeID child w) = updateDepth w"
  "updateQueue (removeChild nodeID child w) =
     updateQueue w @ [removeRecord nodeID (nodeCount (heap w child)) (mountIndex (heap w child))]"
  "markupQueue (removeChild nodeID child w) = markupQueue w"
  "applied (removeChild nodeID child w) = applied w"
  "calls (removeChild nodeID child w) = calls w"
  by (simp_all add: removeChild_def)

lemma setTextContent_fields [simp]:
  "heap (setTextContent p c w) = heap w"
  "updateDepth (setTextContent p c w) = updateDepth w"
  "updateQueue (setTextContent p c w) = updateQueue w @ [textRecord p c]"
  "markupQueue (setTextContent p c w) = markupQueue w"
  "applied (setTextContent p c w) = applied w"
  "calls (setTextContent p c w) = calls w"
  by (simp_all add: setTextContent_def)

section \<open>Computations that keep the batch\<close>

lemma sameBatch_refl [simp]: "sameBatch w w"
  by (simp add: sameBatch_def)

lemma sameBatch_trans: "sameBatch w w1 \<Longrightarrow> sameBatch w1 w2 \<Longrightarrow> sameBatch w w2"
  by (auto simp: sameBatch_def)

lemma keepsBatchI:
  "(\<And>w r w'. 0 < updateDepth w \<Longrightarrow> f w = Some (r, w') \<Longrightarrow> sameBatch w w') \<Longrightarrow> keepsBatch f"
  by (simp add: keepsBatch_def)

lemma keepsBatchD:
  "keepsBatch f \<Longrightarrow> 0 < updateDepth w \<Longrightarrow> f w = Some (r, w') \<Longrightarrow> sameBatch w w'"
  by (simp add: keepsBatch_def)

lemma keepsBatch_ok [simp]: "keepsBatch (ok x)"
  by (simp add: keepsBatch_def ok_def)

lemma keepsBatch_throw [simp]: "keepsBatch (throw e)"
  by (simp add: keepsBatch_def throw_def)

lemma keepsBatch_andThen:
  assumes "keepsBatch m" and "\<And>x. keepsBatch (f x)"
  shows "keepsBatch (andThen m f)"
proof (rule keepsBatchI)
  fix w r w'
  assume d: "0 < updateDepth w" and e: "andThen m f w = Some (r, w')"
  from e consider (err) e' where "m w = Some (Inl e', w')"
    | (val) x w1 where "m w = Some (Inr x, w1)" "f x w1 = Some (r, w')"
    by (auto simp: andThen_cases)
  then show "sameBatch w w'"
  proof cases
    case err
    with assms(1) d show ?thesis by (blast dest: keepsBatchD)
  next
    case val
    from assms(1) d val(1) have s1: "sameBatch w w1" by (blast dest: keepsBatchD)
    then have "0 < updateDepth w1" using d by (simp add: sameBatch_def)
    with assms(2) val(2) have "sameBatch w1 w'" by (blast dest: keepsBatchD)
    with s1 show ?thesis by (rule sameBatch_trans)
  qed
qed

lemma keepsBatch_after:
  assumes "keepsBatch f" and "\<And>w. sameBatch w (g w)"
  shows "keepsBatch (\<lambda>w. f (g w))"
proof (rule keepsBatchI)
  fix w r w'
  assume d: "0 < updateDepth w" and e: "f (g w) = Some (r, w')"
  have s: "sameBatch w (g w)" by (rule assms(2))
  then have "0 < updateDepth (g w)" using d by (simp add: sameBatch_def)
  with assms(1) e have "sameBatch (g w) w'" by (blast dest: keepsBatchD)
  with s show "sameBatch w w'" by (rule sameBatch_trans)
qed

lemma keepsBatch_pure: "(\<And>w. sameBatch w (g w)) \<Longrightarrow> keepsBatch (\<lambda>w. ok x (g w))"
  by (rule keepsBatch_after) simp_all

lemma keepsBatch_deleteRendered [simp]: "keepsBatch (deleteRendered c name)"
  by (rule keepsBatchI) (auto simp: deleteRendered_def ok_def throw_def sameBatch_def split: option.splits)

lemma keepsBatch_mountChild:
  assumes "collab_ok C"
  shows "keepsBatch (priv_mountChildByNameAtIndex C component nodeID idPrefix child name index)"
proof -
  have m: "keepsBatch (mountComponent C child (idPrefix @ name))"
    using assms by (simp add: collab_ok_def)
  show ?thesis
    unfolding priv_mountChildByNameAtIndex_def[abs_def]
    by (rule keepsBatch_andThen[OF m], rule keepsBatchI)
      (auto simp: Let_def ok_def sameBatch_def)
qed

lemma keepsBatch_unmountChild:
  assumes "collab_ok C"
  shows "keepsBatch (priv_unmountChildByName C component nodeID child name)"
proof (rule keepsBatchI)
  fix w r w'
  assume d: "0 < updateDepth w"
    and e: "priv_unmountChildByName C component nodeID child name w = Some (r, w')"
  have u: "keepsBatch (andThen (unmountComponent C child) (\<lambda>_. deleteRendered component name))"
    using assms by (intro keepsBatch_andThen) (simp_all add: collab_ok_def)
  show "sameBatch w w'"
  proof (cases "isComponent (heap w child)")
    case False
    with e show ?thesis by (simp add: priv_unmountChildByName_def ok_def)
  next
    case True
    let ?w2 = "upd child
                    (\<lambda>c. c\<lparr>mountIndex := None, parentComponent := None, previousSibling := None\<rparr>)
                    (removeChild nodeID child w)"
    from True e have "andThen (unmountComponent C child) (\<lambda>_. deleteRendered component name) ?w2 = Some (r, w')"
      by (simp add: priv_unmountChildByName_def Let_def)
    moreover have "0 < updateDepth ?w2" using d by simp
    ultimately have "sameBatch ?w2 w'" using u by (blast dest: keepsBatchD)
    moreover have "sameBatch w ?w2" by (simp add: sameBatch_def)
    ultimately show ?thesis by (blast intro: sameBatch_trans)
  qed
qed

lemma keepsBatch_reuse:
  assumes "collab_ok C"
  shows "keepsBatch (reuse_branch C nodeID p n nextIndex lastIndex)"
proof -
  have "keepsBatch (\<lambda>w. andThen (receiveProps C p (props (heap w n)))
           (\<lambda>_ w1. ok (max (num (mountIndex (heap w p))) lastIndex, Some p)
                      (moveChild nodeID p nextIndex (max (num (mountIndex (heap w p))) lastIndex) w1))
           w)"
  proof (rule keepsBatchI)
    fix w r w'
    assume d: "0 < updateDepth w" and e: "andThen (receiveProps C p (props (heap w n)))
           (\<lambda>_ w1. ok (max (num (mountIndex (heap w p))) lastIndex, Some p)
                      (moveChild nodeID p nextIndex (max (num (mountIndex (heap w p))) lastIndex) w1))
           w = Some (r, w')"
    have "keepsBatch (andThen (receiveProps C p (props (heap w n)))
           (\<lambda>_ w1. ok (max (num (mountIndex (heap w p))) lastIndex, Some p)
                      (moveChild nodeID p nextIndex (max (num (mountIndex (heap w p))) lastIndex) w1)))"
      using assms
      by (intro keepsBatch_andThen keepsBatch_pure) (simp_all add: collab_ok_def sameBatch_def)
    with d e show "sameBatch w w'" by (blast dest: keepsBatchD)
  qed
  then show ?thesis by (simp add: reuse_branch_def[abs_def] Let_def)
qed

lemma keepsBatch_replace:
  assumes "collab_ok C"
  shows "keepsBatch (replace_branch C component nodeID idPrefix prevChild nextChild name nextIndex lastIndex)"
proof -
  have a: "keepsBatch (case prevChild of
          None \<Rightarrow> ok lastIndex
        | Some p \<Rightarrow>
            (\<lambda>w0. andThen (priv_unmountChildByName C component nodeID p name)
                     (\<lambda>_. ok (max (num (mountIndex (heap w0 p))) lastIndex)) w0))"
  proof (cases prevChild)
    case None
    then show ?thesis by simp
  next
    case (Some p)
    have "keepsBatch (\<lambda>w0. andThen (priv_unmountChildByName C component nodeID p name)
                     (\<lambda>_. ok (max (num (mountIndex (heap w0 p))) lastIndex)) w0)"
    proof (rule keepsBatchI)
      fix w r w'
      assume d: "0 < updateDepth w" and e: "andThen (priv_unmountChildByName C component nodeID p name)
                     (\<lambda>_. ok (max (num (mountIndex (heap w p))) lastIndex)) w = Some (r, w')"
      have "keepsBatch (andThen (priv_unmountChildByName C component nodeID p name)
                     (\<lambda>_. ok (max (num (mountIndex (heap w p))) lastIndex)))"
        by (intro keepsBatch_andThen keepsBatch_unmountChild assms) simp
      with d e show "sameBatch w w'" by (blast dest: keepsBatchD)
    qed
    with Some show ?thesis by simp
  qed
  have b: "keepsBatch (case nextChild of
            None \<Rightarrow> ok (l, None)
          | Some n \<Rightarrow>
              andThen (priv_mountChildByNameAtIndex C component nodeID idPrefix n name nextIndex)
                (\<lambda>_. ok (l, Some n)))" for l
    by (cases nextChild) (auto intro!: keepsBatch_andThen keepsBatch_mountChild assms)
  show ?thesis
    unfolding replace_branch_def[abs_def]
    by (rule keepsBatch_andThen[OF a b])
qed

lemma keepsBatch_step:
  assumes "collab_ok C"
  shows "keepsBatch (secondPass_step C component nodeID idPrefix prevIsNull entry st)"
proof (rule keepsBatchI)
  fix w r w'
  assume d: "0 < updateDepth w"
    and e: "secondPass_step C component nodeID idPrefix prevIsNull entry st w = Some (r, w')"
  obtain name nextChild where en: "entry = (name, nextChild)" by (cases entry)
  obtain lastIndex nextIndex lastChild where st: "st = (lastIndex, nextIndex, lastChild)"
    by (cases st)
  let ?prev = "prevChildAt prevIsNull component name w"
  let ?branch = "(case (?prev, nextChild) of
             (Some p, Some n) \<Rightarrow>
               if shouldUpdateChild (heap w) ?prev nextChild
               then reuse_branch C nodeID p n nextIndex lastIndex
               else replace_branch C component nodeID idPrefix ?prev nextChild name
                      nextIndex lastIndex
           | _ \<Rightarrow> replace_branch C component nodeID idPrefix ?prev nextChild name
                    nextIndex lastIndex)"
  let ?tail = "(\<lambda>(lastIndex', mountedChild) w1.
             case mountedChild of
               None \<Rightarrow> ok (lastIndex', nextIndex, lastChild) w1
             | Some m \<Rightarrow>
                 let w2 = (if lastChild = None
                           then upd component (\<lambda>c. c\<lparr>firstRenderedChild := Some m\<rparr>) w1
                           else w1);
                     w3 = upd m (\<lambda>c. c\<lparr>previousSibling := lastChild\<rparr>) w2
                 in ok (lastIndex', nextIndex + num (nodeCount (heap w3 m)), Some m) w3)"
  have b: "keepsBatch ?branch"
    by (auto split: option.splits intro: keepsBatch_reuse keepsBatch_replace assms)
  have t: "keepsBatch (?tail x)" for x
    by (rule keepsBatchI) (auto simp: ok_def Let_def sameBatch_def split: prod.splits option.splits if_splits)
  have "keepsBatch (andThen ?branch ?tail)" by (rule keepsBatch_andThen[OF b t])
  moreover from e en st have "andThen ?branch ?tail w = Some (r, w')"
    by (simp add: secondPass_step_def Let_def)
  ultimately show "sameBatch w w'" using d by (blast dest: keepsBatchD)
qed

lemma keepsBatch_secondPass:
  assumes "collab_ok C"
  shows "keepsBatch (secondPass C component nodeID idPrefix prevIsNull es st)"
proof (induction es arbitrary: st)
  case Nil
  show ?case by (simp add: secondPass.simps(1)[abs_def])
next
  case (Cons e es)
  have "keepsBatch (andThen (secondPass_step C component nodeID idPrefix prevIsNull e st)
       (secondPass C component nodeID idPrefix prevIsNull es))"
    by (rule keepsBatch_andThen[OF keepsBatch_step[OF assms] Cons])
  then show ?case by (simp add: secondPass.simps(2)[abs_def])
qed

lemma keepsBatch_thirdPass:
  assumes "collab_ok C"
  shows "keepsBatch (thirdPass C component nodeID nextChildren ks)"
proof (induction ks)
  case Nil
  show ?case by (simp add: thirdPass.simps(1)[abs_def])
next
  case (Cons k ks)
  show ?case
  proof (rule keepsBatchI)
    fix w r w'
    assume d: "0 < updateDepth w"
      and e: "thirdPass C component nodeID nextChildren (k # ks) w = Some (r, w')"
    have a: "keepsBatch (andThen (priv_unmountChildByName C component nodeID p k)
                 (\<lambda>_. thirdPass C component nodeID nextChildren ks))" for p
      by (intro keepsBatch_andThen keepsBatch_unmountChild assms Cons)
    from e d a Cons show "sameBatch w w'"
      by (auto simp: split: option.splits if_splits dest: keepsBatchD)
  qed
qed

lemma ancestor_loop_sameBatch:
  assumes "ancestor_loop nodeID d a w = Some w'"
  shows "sameBatch w w'"
proof (rule ancestor_loop.raw_induct
    [where P = "\<lambda>nodeID d a w w'. sameBatch w w'", OF _ assms])
  fix f nodeID nodeCountDiff ancestor w w'
  assume IH: "\<And>nodeID d a w y. f nodeID d a w = Some y \<Longrightarrow> sameBatch w y"
    and body: "(case ancestor of None \<Rightarrow> Some w
      | Some a \<Rightarrow>
          if rootNodeID (heap w a) = nodeID then Some w
          else f nodeID nodeCountDiff (parentComponent (heap w a))
                 (upd a (\<lambda>c. c\<lparr>nodeCount := Some (num (nodeCount c) + nodeCountDiff)\<rparr>) w)) =
     Some w'"
  show "sameBatch w w'"
  proof (cases ancestor)
    case None
    with body show ?thesis by simp
  next
    case (Some a)
    show ?thesis
    proof (cases "rootNodeID (heap w a) = nodeID")
      case True
      with Some body show ?thesis by simp
    next
      case False
      with Some body have "f nodeID nodeCountDiff (parentComponent (heap w a))
          (upd a (\<lambda>c. c\<lparr>nodeCount := Some (num (nodeCount c) + nodeCountDiff)\<rparr>) w) = Some w'"
        by simp
      from IH[OF this] show ?thesis by (simp add: sameBatch_def)
    qed
  qed
qed

lemma keepsBatch_rootReplacement:
  assumes "collab_ok C"
  shows "keepsBatch (rootReplacement C component nextChildren)"
proof (rule keepsBatchI)
  fix w r w'
  assume d: "0 < updateDepth w"
    and e: "rootReplacement C component nextChildren w = Some (r, w')"
  have rp: "keepsBatch (receiveProps C p x)" for p x using assms by (simp add: collab_ok_def)
  have um: "keepsBatch (unmountComponent C p)" for p using assms by (simp add: collab_ok_def)
  have mc: "keepsBatch (mountComponent C p x)" for p x using assms by (simp add: collab_ok_def)
  have t: "keepsBatch (\<lambda>w1. let w2 = enqueueReplaceWithMarkup prevID markup w1 in
                                     case renderedChildren (heap w2 component) of
                                       None \<Rightarrow> throw TypeError w2
                                     | Some m \<Rightarrow>
                                         ok () (upd component
                                           (\<lambda>c. c\<lparr>renderedChildren :=
                                                     Some (AList.update [] (Some n) m)\<rparr>) w2))"
    for prevID markup n
    by (rule keepsBatchI) (auto simp: Let_def ok_def throw_def sameBatch_def split: option.splits)
  have full: "keepsBatch (andThen (unmountComponent C p)
                          (\<lambda>_. andThen (mountComponent C n nextID)
                                  (\<lambda>markup w1.
                                     let w2 = enqueueReplaceWithMarkup prevID markup w1 in
                                     case renderedChildren (heap w2 component) of
                                       None \<Rightarrow> throw TypeError w2
                                     | Some m \<Rightarrow>
                                         ok () (upd component
                                           (\<lambda>c. c\<lparr>renderedChildren :=
                                                     Some (AList.update [] (Some n) m)\<rparr>) w2))))"
    for p n nextID prevID
    by (intro keepsBatch_andThen um mc t)
  have part: "keepsBatch (andThen (unmountComponent C p) (\<lambda>_. throw TypeError))" for p
    by (intro keepsBatch_andThen um) simp
  from e d show "sameBatch w w'"
    by (auto simp: rootReplacement_def Let_def throw_def
        split: option.splits if_splits
        dest: keepsBatchD[OF rp] keepsBatchD[OF full] keepsBatchD[OF part])
qed

lemma keepsBatch_keyedDiff:
  assumes "collab_ok C"
  shows "keepsBatch (keyedDiff C component nodeID idPrefix nextChildren)"
proof (rule keepsBatchI)
  fix w r w'
  assume d: "0 < updateDepth w"
    and e: "keyedDiff C component nodeID idPrefix nextChildren w = Some (r, w')"
  let ?prev = "renderedChildren (heap w component)"
  obtain n0 where n0: "nodeCountBefore_loop (heap w) nodeID (firstRenderedChild (heap w component)) 0 = Some n0"
    using e by (auto simp: keyedDiff_def Let_def split: option.splits)
  show "sameBatch w w'"
  proof (cases "n0 = 0")
    case False
    with e n0 show ?thesis by (simp add: keyedDiff_def Let_def throw_def)
  next
    case True
    let ?w1 = "w\<lparr>heap := firstPass (case ?prev of None \<Rightarrow> [] | Some m \<Rightarrow> m) n0 (heap w)\<rparr>"
    let ?tail = "(\<lambda>(lastIndex, nextIndex, lastChild) w2.
                     andThen
                       (thirdPass C component nodeID nextChildren
                          (if ?prev = None then []
                           else (case renderedChildren (heap w2 component) of
                                   None \<Rightarrow> []
                                 | Some m \<Rightarrow> map fst m)))
                       (\<lambda>_ w3.
                          let nodeCountDiff = nextIndex - num (nodeCount (heap w3 component));
                              w4 = upd component
                                     (\<lambda>c. c\<lparr>nodeCount := Some (num (nodeCount c) + nodeCountDiff)\<rparr>) w3
                          in case ancestor_loop nodeID nodeCountDiff
                                    (parentComponent (heap w4 component)) w4 of
                               None \<Rightarrow> None
                             | Some w5 \<Rightarrow> ok () w5)
                       w2)"
    have fin: "keepsBatch (\<lambda>w3.
                          let nodeCountDiff = nextIndex - num (nodeCount (heap w3 component));
                              w4 = upd component
                                     (\<lambda>c. c\<lparr>nodeCount := Some (num (nodeCount c) + nodeCountDiff)\<rparr>) w3
                          in case ancestor_loop nodeID nodeCountDiff
                                    (parentComponent (heap w4 component)) w4 of
                               None \<Rightarrow> None
                             | Some w5 \<Rightarrow> ok () w5)" for nextIndex
    proof (rule keepsBatchI)
      fix w3 r w5
      assume "0 < updateDepth w3" and f: "(let nodeCountDiff = nextIndex - num (nodeCount (heap w3 component));
                              w4 = upd component
                                     (\<lambda>c. c\<lparr>nodeCount := Some (num (nodeCount c) + nodeCountDiff)\<rparr>) w3
                          in case ancestor_loop nodeID nodeCountDiff
                                    (parentComponent (heap w4 component)) w4 of
                               None \<Rightarrow> None
                             | Some w5 \<Rightarrow> ok () w5) = Some (r, w5)"
      from f have "sameBatch (upd component
                 (\<lambda>c. c\<lparr>nodeCount := Some (num (nodeCount c) + (nextIndex - num (nodeCount (heap w3 component))))\<rparr>) w3) w5"
        by (auto simp: Let_def ok_def split: option.splits dest: ancestor_loop_sameBatch)
      then show "sameBatch w3 w5" by (simp add: sameBatch_def)
    qed
    have t: "keepsBatch (?tail x)" for x
    proof (cases x)
      case (fields a b c)
      have "keepsBatch (\<lambda>w2. andThen
                       (thirdPass C component nodeID nextChildren
                          (if ?prev = None then []
                           else (case renderedChildren (heap w2 component) of
                                   None \<Rightarrow> []
                                 | Some m \<Rightarrow> map fst m)))
                       (\<lambda>_. (\<lambda>w3.
                          let nodeCountDiff = b - num (nodeCount (heap w3 component));
                              w4 = upd component
                                     (\<lambda>c. c\<lparr>nodeCount := Some (num (nodeCount c) + nodeCountDiff)\<rparr>) w3
                          in case ancestor_loop nodeID nodeCountDiff
                                    (parentComponent (heap w4 component)) w4 of
                               None \<Rightarrow> None
                             | Some w5 \<Rightarrow> ok () w5))
                       w2)"
      proof (rule keepsBatchI)
        fix w2 r w6
        assume d2: "0 < updateDepth w2" and g: "andThen
                       (thirdPass C component nodeID nextChildren
                          (if ?prev = None then []
                           else (case renderedChildren (heap w2 component) of
                                   None \<Rightarrow> []
                                 | Some m \<Rightarrow> map fst m)))
                       (\<lambda>_. (\<lambda>w3.
                          let nodeCountDiff = b - num (nodeCount (heap w3 component));
                              w4 = upd component
                                     (\<lambda>c. c\<lparr>nodeCount := Some (num (nodeCount c) + nodeCountDiff)\<rparr>) w3
                          in case ancestor_loop nodeID nodeCountDiff
                                    (parentComponent (heap w4 component)) w4 of
                               None \<Rightarrow> None
                             | Some w5 \<Rightarrow> ok () w5))
                       w2 = Some (r, w6)"
        have "keepsBatch (andThen
                       (thirdPass C component nodeID nextChildren
                          (if ?prev = None then []
                           else (case renderedChildren (heap w2 component) of
                                   None \<Rightarrow> []
                                 | Some m \<Rightarrow> map fst m)))
                       (\<lambda>_. (\<lambda>w3.
                          let nodeCountDiff = b - num (nodeCount (heap w3 component));
                              w4 = upd component
                                     (\<lambda>c. c\<lparr>nodeCount := Some (num (nodeCount c) + nodeCountDiff)\<rparr>) w3
                          in case ancestor_loop nodeID nodeCountDiff
                                    (parentComponent (heap w4 component)) w4 of
                               None \<Rightarrow> None
                             | Some w5 \<Rightarrow> ok () w5)))"
          by (intro keepsBatch_andThen keepsBatch_thirdPass assms fin)
        with d2 g show "sameBatch w2 w6" by (blast dest: keepsBatchD)
      qed
      with fields show ?thesis by simp
    qed
    have "keepsBatch (andThen
                  (secondPass C component nodeID idPrefix (?prev = None)
                     (case nextChildren of None \<Rightarrow> [] | Some m \<Rightarrow> m) (0, 0, None)) ?tail)"
      by (intro keepsBatch_andThen keepsBatch_secondPass assms t)
    moreover from e n0 True have "andThen
                  (secondPass C component nodeID idPrefix (?prev = None)
                     (case nextChildren of None \<Rightarrow> [] | Some m \<Rightarrow> m) (0, 0, None)) ?tail ?w1 = Some (r, w')"
      by (simp add: keyedDiff_def Let_def)
    moreover have "0 < updateDepth ?w1" using d by simp
    ultimately have "sameBatch ?w1 w'" by (blast dest: keepsBatchD)
    then show ?thesis by (simp add: sameBatch_def)
  qed
qed

lemma keepsBatch_priv_updateChildren:
  assumes "collab_ok C"
  shows "keepsBatch (priv_updateChildren C component idPrefix nextChildren)"
proof (rule keepsBatchI)
  fix w r w'
  assume d: "0 < updateDepth w"
    and e: "priv_updateChildren C component idPrefix nextChildren w = Some (r, w')"
  from e d show "sameBatch w w'"
    by (auto simp: priv_updateChildren_def Let_def ok_def split: if_splits
        dest: keepsBatchD[OF keepsBatch_rootReplacement[OF assms]]
              keepsBatchD[OF keepsBatch_keyedDiff[OF assms]])
qed

lemma keepsBatch_updateTextContent_body: "keepsBatch (updateTextContent_body c content)"
  by (rule keepsBatchI)
    (auto simp: updateTextContent_body_def ok_def throw_def sameBatch_def
      split: option.splits list.splits)

lemma keepsBatch_depthGuard:
  assumes "keepsBatch body"
  shows "keepsBatch (depthGuard body)"
proof (rule keepsBatchI)
  fix w r w'
  assume d: "0 < updateDepth w" and e: "depthGuard body w = Some (r, w')"
  let ?w0 = "w\<lparr>updateDepth := updateDepth w + 1\<rparr>"
  from e obtain r1 w1 where b: "body ?w0 = Some (r1, w1)"
    by (auto simp: depthGuard_def split: option.splits)
  have "0 < updateDepth ?w0" using d by simp
  with assms b have s: "sameBatch ?w0 w1" by (blast dest: keepsBatchD)
  then have dd: "updateDepth w1 - 1 = updateDepth w" "updateDepth w1 - 1 \<noteq> 0"
    using d by (simp_all add: sameBatch_def)
  from e b dd have "w' = w1\<lparr>updateDepth := updateDepth w1 - 1\<rparr>"
    by (cases r1) (auto simp: depthGuard_def Let_def)
  with s dd show "sameBatch w w'" by (simp add: sameBatch_def)
qed


section \<open>The text-content fast path\<close>

lemma unmountChildren_clears:
  "unmountChildren C c w = Some (Inr u, w1) \<Longrightarrow> renderedChildren (heap w1 c) = None"
  by (auto simp: unmountChildren_def andThen_cases ok_def upd_def)

lemma unmountChildren_loop_leaf:
  "\<exists>w1. unmountChildren_loop (leaf gp mk) m w = Some (Inr (), w1)"
proof (induction m arbitrary: w)
  case Nil
  then show ?case by (simp add: ok_def)
next
  case (Cons e m)
  obtain name v where e: "e = (name, v)" by (cases e)
  show ?case
  proof (cases v)
    case None
    with e Cons show ?thesis by simp
  next
    case (Some r)
    show ?thesis
    proof (cases "isComponent (heap w r)")
      case True
      let ?w1 = "upd r (\<lambda>c. c\<lparr>mountIndex := None, parentComponent := None, previousSibling := None\<rparr>) w"
      have "isComponent (heap ?w1 r)" using True by (simp add: upd_def)
      then have "unmountComponent (leaf gp mk) r ?w1 = ok () (logCall (Unmount r) ?w1)"
        by (simp add: leaf_def leaf_unmountComponent_def)
      with e Some True Cons[of "logCall (Unmount r) ?w1"] show ?thesis
        by (simp add: andThen_def ok_def)
    next
      case False
      with e Some Cons show ?thesis by simp
    qed
  qed
qed

text \<open>
  C8.  \<open>updateTextContent\<close> throws if and only if the component's rendered-children map
  enumerates at least one key, and the invariant violation it throws names the first key
  enumerated (nothing is handed to the output-applying collaborator and the depth is
  restored).  Otherwise it enqueues exactly one \<open>TEXT_CONTENT\<close> record addressed at the
  component's own root identifier: the record stays at the end of the queue in a nested
  call and is flushed with the queue in an outermost one.  After \<open>unmountChildren\<close> has
  returned, \<open>updateTextContent\<close> returns normally, whatever the children's capabilities
  do; with leaf children \<open>unmountChildren\<close> does return.
\<close>

theorem updateTextContent_invariant:
  "((\<exists>e w'. updateTextContent c content w = Some (Inl e, w')) \<longleftrightarrow>
      (\<exists>name v rest. renderedChildren (heap w c) = Some ((name, v) # rest))) \<and>
   (\<forall>name v rest. renderedChildren (heap w c) = Some ((name, v) # rest) \<longrightarrow>
      (\<exists>w'. updateTextContent c content w =
               Some (Inl (InvariantViolation (invariantMessage name)), w') \<and>
             applied w' = applied w \<and> updateDepth w' = updateDepth w)) \<and>
   ((\<forall>name v rest. renderedChildren (heap w c) \<noteq> Some ((name, v) # rest)) \<longrightarrow>
      updateTextContent c content w =
        Some (Inr (),
          if updateDepth w \<noteq> 0
          then w\<lparr>updateQueue := updateQueue w @ [textRecord (rootNodeID (heap w c)) content]\<rparr>
          else w\<lparr>updateQueue := [], markupQueue := [],
                 applied := applied w @
                   [(updateQueue w @ [textRecord (rootNodeID (heap w c)) content],
                     markupQueue w)]\<rparr>)) \<and>
   (\<forall>u w1. unmountChildren C c w = Some (Inr u, w1) \<longrightarrow>
      (\<exists>w2. updateTextContent c content w1 = Some (Inr (), w2))) \<and>
   (\<exists>w1 w2. unmountChildren (leaf gp mk) c w = Some (Inr (), w1) \<and>
      updateTextContent c content w1 = Some (Inr (), w2))"
proof -
  have body_raise: "updateTextContent_body c content w0 =
      throw (InvariantViolation (invariantMessage name)) w0"
    if "renderedChildren (heap w0 c) = Some ((name, v) # rest)" for w0 name v rest
    using that by (simp add: updateTextContent_body_def invariantMessage_def)
  have body_ok: "updateTextContent_body c content w0 =
      ok () (setTextContent (rootNodeID (heap w0 c)) content w0)"
    if "\<forall>name v rest. renderedChildren (heap w0 c) \<noteq> Some ((name, v) # rest)" for w0
    using that by (auto simp: updateTextContent_body_def split: option.splits list.splits)
  have P2: "\<exists>w'. updateTextContent c content w =
               Some (Inl (InvariantViolation (invariantMessage name)), w') \<and>
             applied w' = applied w \<and> updateDepth w' = updateDepth w"
    if "renderedChildren (heap w c) = Some ((name, v) # rest)" for name v rest
    using that body_raise[of "w\<lparr>updateDepth := updateDepth w + 1\<rparr>" name v rest]
    by (simp add: updateTextContent_def depthGuard_def throw_def clearQueue_def Let_def)
  have P3: "updateTextContent c content w0 =
        Some (Inr (),
          if updateDepth w0 \<noteq> 0
          then w0\<lparr>updateQueue := updateQueue w0 @ [textRecord (rootNodeID (heap w0 c)) content]\<rparr>
          else w0\<lparr>updateQueue := [], markupQueue := [],
                 applied := applied w0 @
                   [(updateQueue w0 @ [textRecord (rootNodeID (heap w0 c)) content],
                     markupQueue w0)]\<rparr>)"
    if "\<forall>name v rest. renderedChildren (heap w0 c) \<noteq> Some ((name, v) # rest)" for w0
    using that body_ok[of "w0\<lparr>updateDepth := updateDepth w0 + 1\<rparr>"]
    by (simp add: updateTextContent_def depthGuard_def ok_def clearQueue_def processQueue_def
        setTextContent_def enqueueTextContent_def textRecord_def Let_def)
  have P1: "(\<exists>e w'. updateTextContent c content w = Some (Inl e, w')) \<longleftrightarrow>
      (\<exists>name v rest. renderedChildren (heap w c) = Some ((name, v) # rest))"
  proof (cases "\<exists>name v rest. renderedChildren (heap w c) = Some ((name, v) # rest)")
    case True
    then show ?thesis using P2 by blast
  next
    case False
    then have "\<forall>name v rest. renderedChildren (heap w c) \<noteq> Some ((name, v) # rest)" by blast
    from P3[OF this] False show ?thesis by simp
  qed
  have P4: "\<exists>w2. updateTextContent c content w1 = Some (Inr (), w2)"
    if "unmountChildren C c w = Some (Inr u, w1)" for u w1 C
  proof -
    have "renderedChildren (heap w1 c) = None" using that by (rule unmountChildren_clears)
    then have "\<forall>name v rest. renderedChildren (heap w1 c) \<noteq> Some ((name, v) # rest)" by simp
    from P3[OF this] show ?thesis by blast
  qed
  have P5: "\<exists>w1 w2. unmountChildren (leaf gp mk) c w = Some (Inr (), w1) \<and>
      updateTextContent c content w1 = Some (Inr (), w2)"
  proof -
    obtain w0 where "unmountChildren_loop (leaf gp mk)
        (case renderedChildren (heap w c) of None \<Rightarrow> [] | Some m \<Rightarrow> m) w = Some (Inr (), w0)"
      using unmountChildren_loop_leaf by blast
    then obtain w1 where w1: "unmountChildren (leaf gp mk) c w = Some (Inr (), w1)"
      by (simp add: unmountChildren_def andThen_def ok_def)
    with P4 show ?thesis by blast
  qed
  from P1 P2 P3 P4 P5 show ?thesis by blast
qed


theorem updateTextContent_invariant_witness:
  "renderedChildren (heap (emptyWorld heapWithChild) 0) = Some [(''a'', Some 1)] \<and>
   (\<exists>w'. updateTextContent 0 ''hi'' (emptyWorld heapWithChild) =
            Some (Inl (InvariantViolation (invariantMessage ''a'')), w') \<and> applied w' = []) \<and>
   renderedChildren (heap (emptyWorld heapNoChild) 0) = None \<and>
   updateTextContent 0 ''hi'' (emptyWorld heapNoChild) =
     Some (Inr (), (emptyWorld heapNoChild)\<lparr>applied := [([textRecord ''.0'' ''hi''], [])]\<rparr>) \<and>
   (\<exists>w1 w2. unmountChildren (leaf parentOfID markupOf) 0 (emptyWorld heapWithChild) = Some (Inr (), w1) \<and>
      updateTextContent 0 ''hi'' w1 = Some (Inr (), w2))"
proof -
  note T1 = updateTextContent_invariant
      [of 0 "''hi''" "emptyWorld heapWithChild" "leaf parentOfID markupOf" parentOfID markupOf]
  note T2 = updateTextContent_invariant
      [of 0 "''hi''" "emptyWorld heapNoChild" "leaf parentOfID markupOf" parentOfID markupOf]
  have r: "renderedChildren (heap (emptyWorld heapWithChild) 0) = Some [(''a'', Some 1)]"
    by (simp add: emptyWorld_def heapWithChild_def fresh_def)
  have n: "renderedChildren (heap (emptyWorld heapNoChild) 0) = None"
    by (simp add: emptyWorld_def heapNoChild_def fresh_def)
  have a: "applied (emptyWorld heapWithChild) = []" by (simp add: emptyWorld_def)
  from T1 r a have A: "\<exists>w'. updateTextContent 0 ''hi'' (emptyWorld heapWithChild) =
            Some (Inl (InvariantViolation (invariantMessage ''a'')), w') \<and> applied w' = []"
    by metis
  from n have "\<forall>name v rest. renderedChildren (heap (emptyWorld heapNoChild) 0) \<noteq> Some ((name, v) # rest)"
    by simp
  with T2 have "updateTextContent 0 ''hi'' (emptyWorld heapNoChild) =
        Some (Inr (),
          if updateDepth (emptyWorld heapNoChild) \<noteq> 0
          then (emptyWorld heapNoChild)\<lparr>updateQueue := updateQueue (emptyWorld heapNoChild) @ [textRecord (rootNodeID (heap (emptyWorld heapNoChild) 0)) ''hi'']\<rparr>
          else (emptyWorld heapNoChild)\<lparr>updateQueue := [], markupQueue := [],
                 applied := applied (emptyWorld heapNoChild) @
                   [(updateQueue (emptyWorld heapNoChild) @ [textRecord (rootNodeID (heap (emptyWorld heapNoChild) 0)) ''hi''],
                     markupQueue (emptyWorld heapNoChild))]\<rparr>)"
    by blast
  then have B: "updateTextContent 0 ''hi'' (emptyWorld heapNoChild) =
     Some (Inr (), (emptyWorld heapNoChild)\<lparr>applied := [([textRecord ''.0'' ''hi''], [])]\<rparr>)"
    by (simp add: emptyWorld_def heapNoChild_def fresh_def)
  from T1 have C: "\<exists>w1 w2. unmountChildren (leaf parentOfID markupOf) 0 (emptyWorld heapWithChild) = Some (Inr (), w1) \<and>
      updateTextContent 0 ''hi'' w1 = Some (Inr (), w2)" by blast
  from r A n B C show ?thesis by blast
qed


section \<open>The depth guard\<close>

lemma keepsBatch_leaf_mountComponent [simp]: "keepsBatch (leaf_mountComponent mk r i)"
  by (rule keepsBatchI) (auto simp: leaf_mountComponent_def ok_def throw_def sameBatch_def split: if_splits)

lemma keepsBatch_leaf_receiveProps [simp]: "keepsBatch (leaf_receiveProps r p)"
  by (rule keepsBatchI) (auto simp: leaf_receiveProps_def ok_def throw_def sameBatch_def split: if_splits)

lemma keepsBatch_leaf_unmountComponent [simp]: "keepsBatch (leaf_unmountComponent r)"
  by (rule keepsBatchI) (auto simp: leaf_unmountComponent_def ok_def throw_def sameBatch_def split: if_splits)

lemma collab_ok_leaf [simp]: "collab_ok (leaf gp mk)"
  by (simp add: collab_ok_def leaf_def)

lemma keepsBatch_updateTextContent [simp]: "keepsBatch (updateTextContent c content)"
  unfolding updateTextContent_def
  by (rule keepsBatch_depthGuard[OF keepsBatch_updateTextContent_body])

lemma keepsBatch_updateChildren:
  "collab_ok C \<Longrightarrow> keepsBatch (updateChildren C c p n)"
  unfolding updateChildren_def
  by (rule keepsBatch_depthGuard[OF keepsBatch_priv_updateChildren])

lemma collab_ok_textChild [simp]: "collab_ok textChild"
  by (auto simp: collab_ok_def textChild_def intro!: keepsBatch_andThen)

lemma depthGuard_normal:
  assumes "keepsBatch body" and "0 \<le> updateDepth w"
    and "depthGuard body w = Some (Inr u, w')"
  shows "\<exists>w1. body (entered w) = Some (Inr (), w1) \<and> sameBatch (entered w) w1 \<and>
           w' = (if updateDepth w = 0 then flushed w1 else w1\<lparr>updateDepth := updateDepth w\<rparr>)"
proof -
  from assms(3) obtain r1 w1 where b: "body (entered w) = Some (r1, w1)"
    by (auto simp: depthGuard_def entered_def split: option.splits)
  have "0 < updateDepth (entered w)" using assms(2) by (simp add: entered_def)
  with assms(1) b have s: "sameBatch (entered w) w1" by (blast dest: keepsBatchD)
  then have dd: "updateDepth w1 - 1 = updateDepth w"
    by (simp add: sameBatch_def entered_def)
  from assms(3) b obtain r1: "r1 = Inr ()"
    by (cases r1) (auto simp: depthGuard_def entered_def Let_def)
  from assms(3) b r1 dd
  have "w' = (if updateDepth w = 0 then flushed w1 else w1\<lparr>updateDepth := updateDepth w\<rparr>)"
    by (auto simp: depthGuard_def entered_def Let_def flushed_def processQueue_def clearQueue_def)
  with b r1 s show ?thesis by blast
qed

lemma depthGuard_failure:
  assumes "keepsBatch body" and "0 \<le> updateDepth w"
    and "body (entered w) = Some (Inl e, w1)"
  shows "depthGuard body w =
           Some (Inl e, if updateDepth w = 0 then discarded w1
                        else w1\<lparr>updateDepth := updateDepth w\<rparr>) \<and>
         updateDepth w1 - 1 = updateDepth w \<and> applied w1 = applied w"
proof -
  have "0 < updateDepth (entered w)" using assms(2) by (simp add: entered_def)
  with assms(1,3) have s: "sameBatch (entered w) w1" by (blast dest: keepsBatchD)
  then have dd: "updateDepth w1 - 1 = updateDepth w" "applied w1 = applied w"
    by (simp_all add: sameBatch_def entered_def)
  from assms(3) dd show ?thesis
    by (auto simp: depthGuard_def entered_def Let_def discarded_def clearQueue_def)
qed

lemma outcome_InrE:
  assumes "case x of None \<Rightarrow> False | Some (Inl e, w') \<Rightarrow> False | Some (Inr u, w') \<Rightarrow> P w'"
  obtains w' where "x = Some (Inr (), w')" and "P w'"
proof (cases x)
  case None
  with assms show ?thesis by simp
next
  case (Some rw)
  then obtain r w' where x: "x = Some (r, w')" by (cases rw) simp
  show ?thesis
  proof (cases r)
    case (Inl e)
    with x assms show ?thesis by simp
  next
    case (Inr u)
    with x assms that show ?thesis by simp
  qed
qed

lemma outcome_InlE:
  assumes "case x of None \<Rightarrow> False | Some (Inl e, w') \<Rightarrow> P e w' | Some (Inr u, w') \<Rightarrow> False"
  obtains e w' where "x = Some (Inl e, w')" and "P e w'"
proof (cases x)
  case None
  with assms show ?thesis by simp
next
  case (Some rw)
  then obtain r w' where x: "x = Some (r, w')" by (cases rw) simp
  show ?thesis
  proof (cases r)
    case (Inl e)
    with x assms that show ?thesis by simp
  next
    case (Inr u)
    with x assms show ?thesis by simp
  qed
qed

text \<open>
  C6.  Let the children's capabilities keep the batch (as every capability does that
  touches the module's state only by calling \<open>updateChildren\<close> or \<open>updateTextContent\<close>),
  and let a call of \<open>updateChildren\<close> or \<open>updateTextContent\<close> return normally.  Then its
  body returned normally in a world \<open>w1\<close> in which nothing had been handed to the
  output-applying collaborator and the queues had only grown, by the records of all
  nesting levels in the order they were enqueued.  A nested call (positive depth on
  entry) returns that world with the depth restored: it neither flushes nor clears.  An
  outermost call (depth zero on entry) hands the whole of both queues over in one call,
  and in no call when the update queue is empty, and leaves both queues empty.
\<close>

theorem flush_exactly_once:
  assumes "collab_ok C" and "0 \<le> updateDepth w"
  shows
    "(\<forall>w'. updateChildren C c p n w = Some (Inr (), w') \<longrightarrow>
        (\<exists>w1. priv_updateChildren C c p n (entered w) = Some (Inr (), w1) \<and>
              sameBatch (entered w) w1 \<and>
              (0 < updateDepth w \<longrightarrow> w' = w1\<lparr>updateDepth := updateDepth w\<rparr>) \<and>
              (updateDepth w = 0 \<longrightarrow>
                 w' = flushed w1 \<and> updateQueue w' = [] \<and>
                 applied w' = applied w @
                   (if updateQueue w1 = [] then [] else [(updateQueue w1, markupQueue w1)]) \<and>
                 ((updateQueue w = [] \<longrightarrow> markupQueue w = []) \<longrightarrow> markupQueue w' = [])))) \<and>
     (\<forall>w'. updateTextContent c content w = Some (Inr (), w') \<longrightarrow>
        (\<exists>w1. updateTextContent_body c content (entered w) = Some (Inr (), w1) \<and>
              sameBatch (entered w) w1 \<and>
              (0 < updateDepth w \<longrightarrow> w' = w1\<lparr>updateDepth := updateDepth w\<rparr>) \<and>
              (updateDepth w = 0 \<longrightarrow>
                 w' = flushed w1 \<and> updateQueue w' = [] \<and>
                 applied w' = applied w @
                   (if updateQueue w1 = [] then [] else [(updateQueue w1, markupQueue w1)]) \<and>
                 ((updateQueue w = [] \<longrightarrow> markupQueue w = []) \<longrightarrow> markupQueue w' = []))))"
proof -
  have exit: "\<exists>w1. body (entered w) = Some (Inr (), w1) \<and>
              sameBatch (entered w) w1 \<and>
              (0 < updateDepth w \<longrightarrow> w' = w1\<lparr>updateDepth := updateDepth w\<rparr>) \<and>
              (updateDepth w = 0 \<longrightarrow>
                 w' = flushed w1 \<and> updateQueue w' = [] \<and>
                 applied w' = applied w @
                   (if updateQueue w1 = [] then [] else [(updateQueue w1, markupQueue w1)]) \<and>
                 ((updateQueue w = [] \<longrightarrow> markupQueue w = []) \<longrightarrow> markupQueue w' = []))"
    if kb: "keepsBatch body" and dg: "depthGuard body w = Some (Inr (), w')" for body w'
  proof -
    from depthGuard_normal[OF kb assms(2) dg] obtain w1 where
      b: "body (entered w) = Some (Inr (), w1)" and s: "sameBatch (entered w) w1" and
      w': "w' = (if updateDepth w = 0 then flushed w1 else w1\<lparr>updateDepth := updateDepth w\<rparr>)"
      by blast
    from s have a: "applied w1 = applied w" and
      q: "updateQueue w1 = [] \<Longrightarrow> updateQueue w = []" and
      m: "updateQueue w1 = updateQueue w \<Longrightarrow> markupQueue w1 = markupQueue w"
      by (auto simp: sameBatch_def entered_def)
    have "updateDepth w = 0 \<longrightarrow>
                 w' = flushed w1 \<and> updateQueue w' = [] \<and>
                 applied w' = applied w @
                   (if updateQueue w1 = [] then [] else [(updateQueue w1, markupQueue w1)]) \<and>
                 ((updateQueue w = [] \<longrightarrow> markupQueue w = []) \<longrightarrow> markupQueue w' = [])"
      using w' a q m by (auto simp: flushed_def)
    moreover have "0 < updateDepth w \<longrightarrow> w' = w1\<lparr>updateDepth := updateDepth w\<rparr>"
      using w' by simp
    ultimately show ?thesis using b s by blast
  qed
  show ?thesis
    using exit[OF keepsBatch_priv_updateChildren[OF assms(1)]]
      exit[OF keepsBatch_updateTextContent_body]
    unfolding updateChildren_def updateTextContent_def by blast
qed

theorem flush_exactly_once_witness:
  "collab_ok textChild \<and> updateDepth (emptyWorld heapABC) = 0 \<and>
   (\<exists>w'. updateChildren textChild 0 ''.0.'' nextCAB (emptyWorld heapABC) = Some (Inr (), w') \<and>
      applied w' =
        [([textRecord ''.0.c'' ''txt'', textRecord ''.0.a'' ''txt'',
           moveRecord ''.0'' (Some 1) (Some 0) (Some 1), textRecord ''.0.b'' ''txt'',
           moveRecord ''.0'' (Some 1) (Some 1) (Some 2)], [])] \<and>
      updateQueue w' = [] \<and> markupQueue w' = [])"
proof -
  have E: "(case updateChildren textChild 0 ''.0.'' nextCAB (emptyWorld heapABC) of
     None \<Rightarrow> False
   | Some (Inl e, w') \<Rightarrow> False
   | Some (Inr u, w') \<Rightarrow>
       applied w' =
         [([textRecord ''.0.c'' ''txt'', textRecord ''.0.a'' ''txt'',
            moveRecord ''.0'' (Some 1) (Some 0) (Some 1), textRecord ''.0.b'' ''txt'',
            moveRecord ''.0'' (Some 1) (Some 1) (Some 2)], [])])"
    by code_simp
  then obtain w' where
    r: "updateChildren textChild 0 ''.0.'' nextCAB (emptyWorld heapABC) = Some (Inr (), w')" and
    a: "applied w' =
         [([textRecord ''.0.c'' ''txt'', textRecord ''.0.a'' ''txt'',
            moveRecord ''.0'' (Some 1) (Some 0) (Some 1), textRecord ''.0.b'' ''txt'',
            moveRecord ''.0'' (Some 1) (Some 1) (Some 2)], [])]"
    by (rule outcome_InrE)
  have d: "updateDepth (emptyWorld heapABC) = 0" and
    q: "updateQueue (emptyWorld heapABC) = [] \<longrightarrow> markupQueue (emptyWorld heapABC) = []"
    by (simp_all add: emptyWorld_def)
  have d0: "0 \<le> updateDepth (emptyWorld heapABC)" using d by simp
  from flush_exactly_once[OF collab_ok_textChild d0, of 0 "''.0.''" nextCAB] r d q
  have "updateQueue w' = [] \<and> markupQueue w' = []" by blast
  with r a d collab_ok_textChild show ?thesis by blast
qed

text \<open>
  C7.  Let the children's capabilities keep the batch, and let the body of
  \<open>updateChildren\<close> or of \<open>updateTextContent\<close> throw \<open>e\<close>, leaving the world \<open>w1\<close>.  Then
  the call throws the same \<open>e\<close>; the depth is decremented to what it was on entry;
  nothing was handed to the output-applying collaborator while the body ran, nested
  calls that had returned included, and nothing is handed over now; and when the depth
  is back at zero both queues are cleared, so no record of the failed batch is left to
  be applied later.
\<close>

theorem failure_discards_batch:
  assumes "collab_ok C" and "0 \<le> updateDepth w"
  shows
    "(\<forall>e w1. priv_updateChildren C c p n (entered w) = Some (Inl e, w1) \<longrightarrow>
        updateChildren C c p n w =
          Some (Inl e, if updateDepth w = 0 then discarded w1
                       else w1\<lparr>updateDepth := updateDepth w\<rparr>) \<and>
        updateDepth w1 - 1 = updateDepth w \<and> applied w1 = applied w) \<and>
     (\<forall>e w1. updateTextContent_body c content (entered w) = Some (Inl e, w1) \<longrightarrow>
        updateTextContent c content w =
          Some (Inl e, if updateDepth w = 0 then discarded w1
                       else w1\<lparr>updateDepth := updateDepth w\<rparr>) \<and>
        updateDepth w1 - 1 = updateDepth w \<and> applied w1 = applied w)"
  using depthGuard_failure[OF keepsBatch_priv_updateChildren[OF assms(1)] assms(2)]
    depthGuard_failure[OF keepsBatch_updateTextContent_body assms(2)]
  unfolding updateChildren_def updateTextContent_def by blast

theorem failure_discards_batch_witness:
  "collab_ok textChild \<and> updateDepth (emptyWorld heapABCx) = 0 \<and>
   (\<exists>w1. priv_updateChildren textChild 0 ''.0.'' nextCAB (entered (emptyWorld heapABCx)) =
            Some (Inl (InvariantViolation (invariantMessage ''x'')), w1) \<and>
          updateQueue w1 =
            [textRecord ''.0.c'' ''txt'', textRecord ''.0.a'' ''txt'',
             moveRecord ''.0'' (Some 1) (Some 0) (Some 1)] \<and>
          updateChildren textChild 0 ''.0.'' nextCAB (emptyWorld heapABCx) =
            Some (Inl (InvariantViolation (invariantMessage ''x'')), discarded w1) \<and>
          applied (discarded w1) = [] \<and> updateQueue (discarded w1) = [] \<and>
          markupQueue (discarded w1) = [])"
proof -
  have E: "(case priv_updateChildren textChild 0 ''.0.'' nextCAB (entered (emptyWorld heapABCx)) of
     None \<Rightarrow> False
   | Some (Inl e, w1) \<Rightarrow>
       e = InvariantViolation (invariantMessage ''x'') \<and>
       updateQueue w1 =
         [textRecord ''.0.c'' ''txt'', textRecord ''.0.a'' ''txt'',
          moveRecord ''.0'' (Some 1) (Some 0) (Some 1)]
   | Some (Inr u, w1) \<Rightarrow> False)"
    by code_simp
  then obtain e w1 where
    r0: "priv_updateChildren textChild 0 ''.0.'' nextCAB (entered (emptyWorld heapABCx)) =
          Some (Inl e, w1)" and
    eq: "e = InvariantViolation (invariantMessage ''x'') \<and>
       updateQueue w1 =
         [textRecord ''.0.c'' ''txt'', textRecord ''.0.a'' ''txt'',
          moveRecord ''.0'' (Some 1) (Some 0) (Some 1)]"
    by (rule outcome_InlE)
  from r0 eq have
    r: "priv_updateChildren textChild 0 ''.0.'' nextCAB (entered (emptyWorld heapABCx)) =
          Some (Inl (InvariantViolation (invariantMessage ''x'')), w1)" and
    q: "updateQueue w1 =
         [textRecord ''.0.c'' ''txt'', textRecord ''.0.a'' ''txt'',
          moveRecord ''.0'' (Some 1) (Some 0) (Some 1)]"
    by simp_all
  have d: "updateDepth (emptyWorld heapABCx) = 0" and a: "applied (emptyWorld heapABCx) = []"
    by (simp_all add: emptyWorld_def)
  have d0: "0 \<le> updateDepth (emptyWorld heapABCx)" using d by simp
  from failure_discards_batch[OF collab_ok_textChild d0, of 0 "''.0.''" nextCAB] r d a
  have "updateChildren textChild 0 ''.0.'' nextCAB (emptyWorld heapABCx) =
            Some (Inl (InvariantViolation (invariantMessage ''x'')), discarded w1) \<and>
        applied w1 = []"
    by simp
  with r q d collab_ok_textChild show ?thesis by (auto simp: discarded_def)
qed


section \<open>Leaf children: their capabilities\<close>

lemma leaf_sel [simp]:
  "mountComponent (leaf gp mk) = leaf_mountComponent mk"
  "receiveProps (leaf gp mk) = leaf_receiveProps"
  "unmountComponent (leaf gp mk) = leaf_unmountComponent"
  "getParentID (leaf gp mk) = gp"
  by (simp_all add: leaf_def)

lemma leaf_mountComponent_ok:
  "isComponent (heap w r) \<Longrightarrow>
   leaf_mountComponent mk r rootID w =
     ok (mk r rootID) (logCall (Mount r rootID) (upd r (\<lambda>c. c\<lparr>rootNodeID := rootID\<rparr>) w))"
  by (simp add: leaf_mountComponent_def)

lemma leaf_receiveProps_ok:
  "isComponent (heap w r) \<Longrightarrow>
   leaf_receiveProps r p w = ok () (logCall (ReceiveProps r p) (upd r (\<lambda>c. c\<lparr>props := p\<rparr>) w))"
  by (simp add: leaf_receiveProps_def)

lemma leaf_unmountComponent_ok:
  "isComponent (heap w r) \<Longrightarrow> leaf_unmountComponent r w = ok () (logCall (Unmount r) w)"
  by (simp add: leaf_unmountComponent_def)

lemma andThen_okI: "m w = ok x w1 \<Longrightarrow> andThen m f w = f x w1"
  by (simp add: andThen_def ok_def)

section \<open>Root replacement\<close>

text \<open>
  The branch of \<open>_updateChildren\<close> for the empty node identifier, with a component on
  both sides of the empty key (leaf children): what the body of the call does, before the
  depth guard's exit.
\<close>

lemma root_replacement_body:
  assumes "resolveNodeID (leaf gp mk) c idPrefix w = []"
    and "renderedChildren (heap w c) = Some pm" and "childAt pm [] = Some p"
    and "childAt nm [] = Some n"
    and "isComponent (heap w p)" and "isComponent (heap w n)"
  shows
    "(\<not> shouldUpdateChild (heap w) (Some p) (Some n) \<longrightarrow>
        (\<exists>w'. priv_updateChildren (leaf gp mk) c idPrefix (Some nm) w = Some (Inr (), w') \<and>
           updateQueue w' =
             updateQueue w @ [replaceRecord (rootNodeID (heap w p)) (length (markupQueue w))] \<and>
           markupQueue w' = markupQueue w @ [mk n (rootNodeID (heap w c))] \<and>
           calls w' = calls w @ [Unmount p, Mount n (rootNodeID (heap w c))] \<and>
           rootNodeID (heap w' n) = rootNodeID (heap w c) \<and>
           renderedChildren (heap w' c) = Some (AList.update [] (Some n) pm) \<and>
           updateDepth w' = updateDepth w \<and> applied w' = applied w)) \<and>
     (shouldUpdateChild (heap w) (Some p) (Some n) \<longrightarrow>
        priv_updateChildren (leaf gp mk) c idPrefix (Some nm) w =
          Some (Inr (),
            logCall (ReceiveProps p (props (heap w n)))
              (upd p (\<lambda>x. x\<lparr>props := props (heap w n)\<rparr>) w)))"
proof (intro conjI impI)
  assume ns: "\<not> shouldUpdateChild (heap w) (Some p) (Some n)"
  let ?prevID = "rootNodeID (heap w p)"
  let ?nextID = "rootNodeID (heap w c)"
  let ?w1 = "logCall (Unmount p) w"
  let ?w2 = "logCall (Mount n ?nextID) (upd n (\<lambda>x. x\<lparr>rootNodeID := ?nextID\<rparr>) ?w1)"
  let ?w3 = "enqueueReplaceWithMarkup ?prevID (mk n ?nextID) ?w2"
  let ?w4 = "upd c (\<lambda>x. x\<lparr>renderedChildren := Some (AList.update [] (Some n) pm)\<rparr>) ?w3"
  have u: "leaf_unmountComponent p w = ok () ?w1"
    using assms(5) by (rule leaf_unmountComponent_ok)
  have m: "leaf_mountComponent mk n ?nextID ?w1 = ok (mk n ?nextID) ?w2"
    using assms(6) by (simp add: leaf_mountComponent_ok)
  have r: "renderedChildren (heap ?w3 c) = Some pm"
    using assms(2) by auto
  have "rootReplacement (leaf gp mk) c (Some nm) w = Some (Inr (), ?w4)"
    using assms(2,3,4) ns r
    by (simp add: rootReplacement_def Let_def
        andThen_okI[where m = "leaf_unmountComponent p" and w = w, OF u]
        andThen_okI[where m = "leaf_mountComponent mk n ?nextID" and w = ?w1, OF m] ok_def)
  then have "priv_updateChildren (leaf gp mk) c idPrefix (Some nm) w = Some (Inr (), ?w4)"
    using assms(1) by (simp add: priv_updateChildren_def)
  moreover have "updateQueue ?w4 = updateQueue w @ [replaceRecord ?prevID (length (markupQueue w))]"
    "markupQueue ?w4 = markupQueue w @ [mk n ?nextID]"
    "calls ?w4 = calls w @ [Unmount p, Mount n ?nextID]"
    "rootNodeID (heap ?w4 n) = ?nextID"
    "renderedChildren (heap ?w4 c) = Some (AList.update [] (Some n) pm)"
    "updateDepth ?w4 = updateDepth w" "applied ?w4 = applied w"
    by simp_all
  ultimately show "\<exists>w'. priv_updateChildren (leaf gp mk) c idPrefix (Some nm) w = Some (Inr (), w') \<and>
           updateQueue w' =
             updateQueue w @ [replaceRecord (rootNodeID (heap w p)) (length (markupQueue w))] \<and>
           markupQueue w' = markupQueue w @ [mk n (rootNodeID (heap w c))] \<and>
           calls w' = calls w @ [Unmount p, Mount n (rootNodeID (heap w c))] \<and>
           rootNodeID (heap w' n) = rootNodeID (heap w c) \<and>
           renderedChildren (heap w' c) = Some (AList.update [] (Some n) pm) \<and>
           updateDepth w' = updateDepth w \<and> applied w' = applied w"
    by blast
next
  assume s: "shouldUpdateChild (heap w) (Some p) (Some n)"
  have "rootReplacement (leaf gp mk) c (Some nm) w =
      Some (Inr (), logCall (ReceiveProps p (props (heap w n)))
              (upd p (\<lambda>x. x\<lparr>props := props (heap w n)\<rparr>) w))"
    using assms(2,3,4,5) s
    by (simp add: rootReplacement_def Let_def leaf_receiveProps_ok ok_def)
  then show "priv_updateChildren (leaf gp mk) c idPrefix (Some nm) w =
          Some (Inr (),
            logCall (ReceiveProps p (props (heap w n)))
              (upd p (\<lambda>x. x\<lparr>props := props (heap w n)\<rparr>) w))"
    using assms(1) by (simp add: priv_updateChildren_def)
qed

lemma depthGuard_returns:
  assumes "body (entered w) = Some (Inr (), w1)" and "updateDepth w1 = updateDepth w + 1"
  shows "depthGuard body w =
           Some (Inr (), if updateDepth w = 0 then flushed w1 else w1\<lparr>updateDepth := updateDepth w\<rparr>)"
  using assms
  by (auto simp: depthGuard_def entered_def Let_def flushed_def processQueue_def clearQueue_def)

text \<open>
  C4.  Let the node identifier of a diff resolve to the empty string, and let the previous
  and the next map each hold a component under the empty key (leaf children).  When
  \<open>shouldUpdateChild\<close> fails for the pair, \<open>updateChildren\<close> returns normally, having
  unmounted the previous child and mounted the next child under the component's own root
  identifier, with the next child stored under the empty key, and it has emitted exactly
  one record, a \<open>REPLACE_WITH_MARKUP\<close> addressed at the previous child's root identifier
  with the index of the one markup it appends: an outermost call (depth zero) hands the
  update queue with this record appended, and the markup queue with the markup appended,
  to the output-applying collaborator in one call and leaves both queues empty; a nested
  call leaves the record and the markup at the end of the queues.  When
  \<open>shouldUpdateChild\<close> holds, the call does nothing but the previous child's
  \<open>receiveProps\<close> with the next child's props and the exit of the depth guard (the flush
  of what was queued before, at depth zero): no record is enqueued.
\<close>

theorem root_replacement:
  assumes "resolveNodeID (leaf gp mk) c idPrefix w = []"
    and "renderedChildren (heap w c) = Some pm" and "childAt pm [] = Some p"
    and "childAt nm [] = Some n"
    and "isComponent (heap w p)" and "isComponent (heap w n)"
  shows
    "(\<not> shouldUpdateChild (heap w) (Some p) (Some n) \<longrightarrow>
        (\<exists>w'. updateChildren (leaf gp mk) c idPrefix (Some nm) w = Some (Inr (), w') \<and>
           calls w' = calls w @ [Unmount p, Mount n (rootNodeID (heap w c))] \<and>
           rootNodeID (heap w' n) = rootNodeID (heap w c) \<and>
           renderedChildren (heap w' c) = Some (AList.update [] (Some n) pm) \<and>
           updateDepth w' = updateDepth w \<and>
           (if updateDepth w = 0
            then applied w' =
                   applied w @
                   [(updateQueue w @
                       [replaceRecord (rootNodeID (heap w p)) (length (markupQueue w))],
                     markupQueue w @ [mk n (rootNodeID (heap w c))])] \<and>
                 updateQueue w' = [] \<and> markupQueue w' = []
            else applied w' = applied w \<and>
                 updateQueue w' =
                   updateQueue w @
                   [replaceRecord (rootNodeID (heap w p)) (length (markupQueue w))] \<and>
                 markupQueue w' = markupQueue w @ [mk n (rootNodeID (heap w c))]))) \<and>
     (shouldUpdateChild (heap w) (Some p) (Some n) \<longrightarrow>
        updateChildren (leaf gp mk) c idPrefix (Some nm) w =
          Some (Inr (),
            logCall (ReceiveProps p (props (heap w n)))
              (upd p (\<lambda>x. x\<lparr>props := props (heap w n)\<rparr>)
                 (if updateDepth w = 0 then flushed w else w))))"
proof (intro conjI impI)
  let ?e = "entered w"
  have he: "heap ?e = heap w" "calls ?e = calls w" "updateQueue ?e = updateQueue w"
    "markupQueue ?e = markupQueue w" "applied ?e = applied w"
    "updateDepth ?e = updateDepth w + 1"
    by (simp_all add: entered_def)
  have "resolveNodeID (leaf gp mk) c idPrefix ?e = resolveNodeID (leaf gp mk) c idPrefix w"
    by (simp add: resolveNodeID_def he(1))
  with assms(1) have r: "resolveNodeID (leaf gp mk) c idPrefix ?e = []" by simp
  have a2: "renderedChildren (heap ?e c) = Some pm" "isComponent (heap ?e p)"
    "isComponent (heap ?e n)"
    using assms(2,5,6) by (simp_all add: he(1))
  note B = root_replacement_body[OF r a2(1) assms(3) assms(4) a2(2) a2(3), unfolded he]
  {
    assume ns: "\<not> shouldUpdateChild (heap w) (Some p) (Some n)"
    with B obtain w1 where
      b: "priv_updateChildren (leaf gp mk) c idPrefix (Some nm) ?e = Some (Inr (), w1)" and
      q: "updateQueue w1 =
            updateQueue w @ [replaceRecord (rootNodeID (heap w p)) (length (markupQueue w))]" and
      m: "markupQueue w1 = markupQueue w @ [mk n (rootNodeID (heap w c))]" and
      cl: "calls w1 = calls w @ [Unmount p, Mount n (rootNodeID (heap w c))]" and
      rn: "rootNodeID (heap w1 n) = rootNodeID (heap w c)" and
      rc: "renderedChildren (heap w1 c) = Some (AList.update [] (Some n) pm)" and
      d: "updateDepth w1 = updateDepth w + 1" and ap: "applied w1 = applied w"
      by blast
    let ?w' = "if updateDepth w = 0 then flushed w1 else w1\<lparr>updateDepth := updateDepth w\<rparr>"
    from depthGuard_returns[where body = "priv_updateChildren (leaf gp mk) c idPrefix (Some nm)"
        and w = w, OF b d]
    have u: "updateChildren (leaf gp mk) c idPrefix (Some nm) w = Some (Inr (), ?w')"
      by (simp add: updateChildren_def)
    have f: "calls ?w' = calls w @ [Unmount p, Mount n (rootNodeID (heap w c))]"
      "rootNodeID (heap ?w' n) = rootNodeID (heap w c)"
      "renderedChildren (heap ?w' c) = Some (AList.update [] (Some n) pm)"
      "updateDepth ?w' = updateDepth w"
      "if updateDepth w = 0
            then applied ?w' =
                   applied w @
                   [(updateQueue w @
                       [replaceRecord (rootNodeID (heap w p)) (length (markupQueue w))],
                     markupQueue w @ [mk n (rootNodeID (heap w c))])] \<and>
                 updateQueue ?w' = [] \<and> markupQueue ?w' = []
            else applied ?w' = applied w \<and>
                 updateQueue ?w' =
                   updateQueue w @
                   [replaceRecord (rootNodeID (heap w p)) (length (markupQueue w))] \<and>
                 markupQueue ?w' = markupQueue w @ [mk n (rootNodeID (heap w c))]"
      using q m cl rn rc ap by (simp_all add: flushed_def)
    show "\<exists>w'. updateChildren (leaf gp mk) c idPrefix (Some nm) w = Some (Inr (), w') \<and>
           calls w' = calls w @ [Unmount p, Mount n (rootNodeID (heap w c))] \<and>
           rootNodeID (heap w' n) = rootNodeID (heap w c) \<and>
           renderedChildren (heap w' c) = Some (AList.update [] (Some n) pm) \<and>
           updateDepth w' = updateDepth w \<and>
           (if updateDepth w = 0
            then applied w' =
                   applied w @
                   [(updateQueue w @
                       [replaceRecord (rootNodeID (heap w p)) (length (markupQueue w))],
                     markupQueue w @ [mk n (rootNodeID (heap w c))])] \<and>
                 updateQueue w' = [] \<and> markupQueue w' = []
            else applied w' = applied w \<and>
                 updateQueue w' =
                   updateQueue w @
                   [replaceRecord (rootNodeID (heap w p)) (length (markupQueue w))] \<and>
                 markupQueue w' = markupQueue w @ [mk n (rootNodeID (heap w c))])"
      using u f by blast
  }
  {
    assume s: "shouldUpdateChild (heap w) (Some p) (Some n)"
    let ?w1 = "logCall (ReceiveProps p (props (heap w n)))
              (upd p (\<lambda>x. x\<lparr>props := props (heap w n)\<rparr>) ?e)"
    from B s have b: "priv_updateChildren (leaf gp mk) c idPrefix (Some nm) ?e = Some (Inr (), ?w1)"
      by simp
    have d: "updateDepth ?w1 = updateDepth w + 1" by (simp add: entered_def)
    have "(if updateDepth w = 0 then flushed ?w1 else ?w1\<lparr>updateDepth := updateDepth w\<rparr>) =
          logCall (ReceiveProps p (props (heap w n)))
              (upd p (\<lambda>x. x\<lparr>props := props (heap w n)\<rparr>)
                 (if updateDepth w = 0 then flushed w else w))"
      by (simp add: flushed_def logCall_def upd_def entered_def)
    with depthGuard_returns[where body = "priv_updateChildren (leaf gp mk) c idPrefix (Some nm)"
        and w = w, OF b d]
    show "updateChildren (leaf gp mk) c idPrefix (Some nm) w =
          Some (Inr (),
            logCall (ReceiveProps p (props (heap w n)))
              (upd p (\<lambda>x. x\<lparr>props := props (heap w n)\<rparr>)
                 (if updateDepth w = 0 then flushed w else w)))"
      by (simp add: updateChildren_def)
  }
qed

theorem root_replacement_witness:
  "resolveNodeID (leaf parentOfID markupOf) 0 ''.0'' (emptyWorld heapRoot) = [] \<and>
   \<not> shouldUpdateChild (heap (emptyWorld heapRoot)) (Some 1) (Some 2) \<and>
   shouldUpdateChild (heap (emptyWorld heapRoot)) (Some 1) (Some 3) \<and>
   (\<exists>w'. updateChildren (leaf parentOfID markupOf) 0 ''.0'' (Some [([], Some 2)])
            (emptyWorld heapRoot) = Some (Inr (), w') \<and>
      applied w' = [([replaceRecord ''.0'' 0], [''<.0>''])] \<and>
      updateQueue w' = [] \<and> markupQueue w' = [] \<and>
      calls w' = [Unmount 1, Mount 2 ''.0''] \<and>
      renderedChildren (heap w' 0) = Some [([], Some 2)]) \<and>
   updateChildren (leaf parentOfID markupOf) 0 ''.0'' (Some [([], Some 3)])
       (emptyWorld heapRoot) =
     Some (Inr (), logCall (ReceiveProps 1 8) (upd 1 (\<lambda>x. x\<lparr>props := 8\<rparr>) (emptyWorld heapRoot)))"
proof -
  let ?w = "emptyWorld heapRoot"
  have h1: "resolveNodeID (leaf parentOfID markupOf) 0 ''.0'' ?w = []"
    by (simp add: resolveNodeID_def emptyWorld_def heapRoot_def fresh_def parentOfID_def)
  have h2: "renderedChildren (heap ?w 0) = Some [([], Some 1)]"
    by (simp add: emptyWorld_def heapRoot_def fresh_def)
  have h3: "childAt [([], Some 1)] [] = Some 1" by (simp add: childAt_def)
  have h4: "childAt [([], Some 2)] [] = Some 2" "childAt [([], Some 3)] [] = Some 3"
    by (simp_all add: childAt_def)
  have h5: "isComponent (heap ?w 1)" "isComponent (heap ?w 2)" "isComponent (heap ?w 3)"
    by (simp_all add: emptyWorld_def heapRoot_def fresh_def)
  have n: "\<not> shouldUpdateChild (heap ?w) (Some 1) (Some 2)"
    by (simp add: shouldUpdateChild_def emptyWorld_def heapRoot_def fresh_def)
  have s: "shouldUpdateChild (heap ?w) (Some 1) (Some 3)"
    by (simp add: shouldUpdateChild_def emptyWorld_def heapRoot_def fresh_def)
  have v: "rootNodeID (heap ?w 1) = ''.0''" "rootNodeID (heap ?w 0) = ''.0''"
    "props (heap ?w 3) = 8" "updateQueue ?w = []" "markupQueue ?w = []" "calls ?w = []"
    "applied ?w = []" "updateDepth ?w = 0"
    by (simp_all add: emptyWorld_def heapRoot_def fresh_def)
  have fl: "flushed ?w = ?w" by (simp add: flushed_def emptyWorld_def)
  from root_replacement[OF h1 h2 h3 h4(1) h5(1) h5(2)] n v
  have A: "\<exists>w'. updateChildren (leaf parentOfID markupOf) 0 ''.0'' (Some [([], Some 2)])
            ?w = Some (Inr (), w') \<and>
      applied w' = [([replaceRecord ''.0'' 0], [''<.0>''])] \<and>
      updateQueue w' = [] \<and> markupQueue w' = [] \<and>
      calls w' = [Unmount 1, Mount 2 ''.0''] \<and>
      renderedChildren (heap w' 0) = Some [([], Some 2)]"
    by (auto simp: markupOf_def)
  from root_replacement[OF h1 h2 h3 h4(2) h5(1) h5(3)] s v fl
  have B: "updateChildren (leaf parentOfID markupOf) 0 ''.0'' (Some [([], Some 3)]) ?w =
     Some (Inr (), logCall (ReceiveProps 1 8) (upd 1 (\<lambda>x. x\<lparr>props := 8\<rparr>) ?w))"
    by simp
  from h1 n s A B show ?thesis by blast
qed

section \<open>Type mismatch under a shared key\<close>

text \<open>
  C3, evaluated at previous children \<open>{a: A, x: A}\<close> and next children \<open>{a: A, x: B}\<close>:
  the call unmounts the previous child under \<open>x\<close> and mounts the next one, without a
  \<open>receiveProps\<close> on either, and hands over one \<open>REMOVE_NODE\<close> record followed by one
  \<open>INSERT_MARKUP\<close> record.  The destination index of the \<open>INSERT_MARKUP\<close> record is not
  the value \<open>1\<close> that \<open>nextIndex\<close> has there: it is the never assigned \<open>_mountIndex\<close> of
  the new child, since \<open>_mountChildByNameAtIndex\<close> does not read its parameter \<open>index\<close>.
\<close>

theorem type_mismatch_insert_index:
  "map_option (\<lambda>(r, w). (r, applied w, calls w))
     (updateChildren (leaf parentOfID markupOf) 0 ''.0.'' nextAX (emptyWorld heapAX)) =
   Some (Inr (),
     [([removeRecord ''.0'' (Some 1) (Some 1), insertRecord ''.0'' 0 None], [''<.0.x>''])],
     [ReceiveProps 1 0, Unmount 2, Mount 4 ''.0.x''])"
  by code_simp

section \<open>The two engines\<close>

text \<open>
  C10, evaluated at the same children, all of node count one and at consistent previous
  positions: the unit-index engine hands over \<open>REMOVE_NODE\<close> from \<open>1\<close> and
  \<open>INSERT_MARKUP\<close> to \<open>1\<close>; the node-count engine hands over the same \<open>REMOVE_NODE\<close>, with
  node count \<open>1\<close>, and an \<open>INSERT_MARKUP\<close> without a destination index.
\<close>

theorem engines_differ_on_insert:
  "map_option (\<lambda>(r, w). (r, applied w))
     (updateChildren_unit (leaf parentOfID markupOf) 0 ''.0'' ''.0.'' nextAX (emptyWorld heapAX)) =
   Some (Inr (),
     [([removeRecord ''.0'' None (Some 1), insertRecord ''.0'' 0 (Some 1)], [''<.0.x>''])]) \<and>
   map_option (\<lambda>(r, w). (r, applied w))
     (updateChildren (leaf parentOfID markupOf) 0 ''.0.'' nextAX (emptyWorld heapAX)) =
   Some (Inr (),
     [([removeRecord ''.0'' (Some 1) (Some 1), insertRecord ''.0'' 0 None], [''<.0.x>''])])"
  by code_simp


section \<open>Outcomes of the engine with leaf children\<close>

lemma post_ok [simp]: "post (ok x) w Q = Q (Inr x) w"
  by (simp add: post_def ok_def)

lemma post_throw [simp]: "post (throw e) w Q = Q (Inl e) w"
  by (simp add: post_def throw_def)

lemma post_andThen [simp]:
  "post (andThen m f) w Q =
     post m w (\<lambda>r w1. case r of Inl e \<Rightarrow> Q (Inl e) w1 | Inr x \<Rightarrow> post (f x) w1 Q)"
  by (simp add: post_def andThen_def split: option.splits sum.splits prod.splits)

lemma postD: "post f w Q \<Longrightarrow> f w = Some (r, w') \<Longrightarrow> Q r w'"
  by (simp add: post_def)

lemma post_returns: "post f w Q \<Longrightarrow> \<exists>r w'. f w = Some (r, w') \<and> Q r w'"
  by (auto simp: post_def split: option.splits)

lemma post_mono: "post f w Q \<Longrightarrow> (\<And>r w'. Q r w' \<Longrightarrow> Q' r w') \<Longrightarrow> post f w Q'"
  by (auto simp: post_def split: option.splits)

lemma post_conj: "post f w Q \<Longrightarrow> post f w Q' \<Longrightarrow> post f w (\<lambda>r w'. Q r w' \<and> Q' r w')"
  by (auto simp: post_def split: option.splits)

lemma post_step_unfold:
  "post (secondPass_step C c nodeID idPrefix pn (name, nx) (li, ni, lc)) w Q =
     post (if shouldUpdateChild (heap w) (prevChildAt pn c name w) nx
           then reuse_branch C nodeID (the (prevChildAt pn c name w)) (the nx) ni li
           else replace_branch C c nodeID idPrefix (prevChildAt pn c name w) nx name ni li) w
       (\<lambda>r w1. case r of
          Inl e \<Rightarrow> Q (Inl e) w1
        | Inr (li', mounted) \<Rightarrow>
            (case mounted of
               None \<Rightarrow> Q (Inr (li', ni, lc)) w1
             | Some m \<Rightarrow>
                 Q (Inr (li', ni + num (nodeCount (heap w1 m)), Some m))
                   (upd m (\<lambda>x. x\<lparr>previousSibling := lc\<rparr>)
                      (if lc = None then upd c (\<lambda>x. x\<lparr>firstRenderedChild := Some m\<rparr>) w1 else w1))))"
proof -
  have branch: "(case prevChildAt pn c name w of
        None \<Rightarrow> replace_branch C c nodeID idPrefix (prevChildAt pn c name w) nx name ni li
      | Some p \<Rightarrow>
          (case nx of
             None \<Rightarrow> replace_branch C c nodeID idPrefix (prevChildAt pn c name w) nx name ni li
           | Some n \<Rightarrow>
               if shouldUpdateChild (heap w) (prevChildAt pn c name w) nx
               then reuse_branch C nodeID p n ni li
               else replace_branch C c nodeID idPrefix (prevChildAt pn c name w) nx name ni li)) =
        (if shouldUpdateChild (heap w) (prevChildAt pn c name w) nx
           then reuse_branch C nodeID (the (prevChildAt pn c name w)) (the nx) ni li
           else replace_branch C c nodeID idPrefix (prevChildAt pn c name w) nx name ni li)"
    by (cases "prevChildAt pn c name w"; cases nx) (simp_all add: shouldUpdateChild_def)
  let ?B = "if shouldUpdateChild (heap w) (prevChildAt pn c name w) nx
           then reuse_branch C nodeID (the (prevChildAt pn c name w)) (the nx) ni li
           else replace_branch C c nodeID idPrefix (prevChildAt pn c name w) nx name ni li"
  let ?T = "\<lambda>(lastIndex', mountedChild) w1.
             case mountedChild of
               None \<Rightarrow> ok (lastIndex', ni, lc) w1
             | Some m \<Rightarrow>
                 let w2 = (if lc = None
                           then upd c (\<lambda>c. c\<lparr>firstRenderedChild := Some m\<rparr>) w1
                           else w1);
                     w3 = upd m (\<lambda>c. c\<lparr>previousSibling := lc\<rparr>) w2
                 in ok (lastIndex', ni + num (nodeCount (heap w3 m)), Some m) w3"
  have eq: "secondPass_step C c nodeID idPrefix pn (name, nx) (li, ni, lc) w = andThen ?B ?T w"
    by (simp add: secondPass_step_def Let_def branch)
  have tail: "post (?T x) w1 Q' =
      (case x of (li', mounted) \<Rightarrow>
            (case mounted of
               None \<Rightarrow> Q' (Inr (li', ni, lc)) w1
             | Some m \<Rightarrow>
                 Q' (Inr (li', ni + num (nodeCount (heap w1 m)), Some m))
                   (upd m (\<lambda>x. x\<lparr>previousSibling := lc\<rparr>)
                      (if lc = None then upd c (\<lambda>x. x\<lparr>firstRenderedChild := Some m\<rparr>) w1 else w1))))"
    for x w1 Q'
    by (cases x; cases lc) (auto simp: post_def ok_def Let_def split: option.splits)
  have "post (secondPass_step C c nodeID idPrefix pn (name, nx) (li, ni, lc)) w Q =
        post (andThen ?B ?T) w Q"
    by (simp add: post_def eq)
  also have "\<dots> = post ?B w (\<lambda>r w1. case r of Inl e \<Rightarrow> Q (Inl e) w1 | Inr x \<Rightarrow> post (?T x) w1 Q)"
    by (rule post_andThen)
  finally show ?thesis
    by (simp only: tail)
qed

lemma post_unmount_leaf:
  "post (priv_unmountChildByName (leaf gp mk) c nodeID p name) w Q =
     (if isComponent (heap w p)
      then (let w1 = logCall (Unmount p)
                       (upd p (\<lambda>x. x\<lparr>mountIndex := None, parentComponent := None,
                                       previousSibling := None\<rparr>)
                          (removeChild nodeID p w))
            in case renderedChildren (heap w1 c) of
                 None \<Rightarrow> Q (Inl TypeError) w1
               | Some m \<Rightarrow>
                   Q (Inr ()) (upd c (\<lambda>x. x\<lparr>renderedChildren := Some (AList.delete name m)\<rparr>) w1))
      else Q (Inr ()) w)"
  by (simp add: post_def priv_unmountChildByName_def Let_def andThen_def
      leaf_unmountComponent_def deleteRendered_def ok_def throw_def split: option.splits)

lemma post_mount_leaf:
  "post (priv_mountChildByNameAtIndex (leaf gp mk) c nodeID idPrefix n name index) w Q =
     (if isComponent (heap w n)
      then (let w1 = logCall (Mount n (idPrefix @ name))
                       (upd n (\<lambda>x. x\<lparr>rootNodeID := idPrefix @ name\<rparr>) w);
                w2 = upd n (\<lambda>x. x\<lparr>parentComponent := Some c\<rparr>) w1;
                w3 = createChild nodeID n (mk n (idPrefix @ name)) w2;
                m = (case renderedChildren (heap w3 c) of None \<Rightarrow> [] | Some m \<Rightarrow> m)
            in Q (Inr ()) (upd c (\<lambda>x. x\<lparr>renderedChildren := Some (AList.update name (Some n) m)\<rparr>) w3))
      else Q (Inl TypeError) w)"
  by (simp add: post_def priv_mountChildByNameAtIndex_def Let_def andThen_def
      leaf_mountComponent_def ok_def throw_def)

lemma post_reuse_leaf:
  "post (reuse_branch (leaf gp mk) nodeID p n ni li) w Q =
     (if isComponent (heap w p)
      then Q (Inr (max (num (mountIndex (heap w p))) li, Some p))
             (moveChild nodeID p ni (max (num (mountIndex (heap w p))) li)
                (logCall (ReceiveProps p (props (heap w n)))
                   (upd p (\<lambda>x. x\<lparr>props := props (heap w n)\<rparr>) w)))
      else Q (Inl TypeError) w)"
  by (simp add: post_def reuse_branch_def Let_def andThen_def leaf_receiveProps_def ok_def throw_def)

lemma post_replace:
  "post (replace_branch C c nodeID idPrefix prev nx name ni li) w Q =
     (let mountPart = (\<lambda>l w1.
            case nx of
              None \<Rightarrow> Q (Inr (l, None)) w1
            | Some n \<Rightarrow>
                post (priv_mountChildByNameAtIndex C c nodeID idPrefix n name ni) w1
                  (\<lambda>r w2. case r of Inl e \<Rightarrow> Q (Inl e) w2 | Inr u \<Rightarrow> Q (Inr (l, Some n)) w2))
      in case prev of
           None \<Rightarrow> mountPart li w
         | Some p \<Rightarrow>
             post (priv_unmountChildByName C c nodeID p name) w
               (\<lambda>r w1. case r of
                  Inl e \<Rightarrow> Q (Inl e) w1
                | Inr u \<Rightarrow> mountPart (max (num (mountIndex (heap w p))) li) w1))"
  by (cases prev; cases nx)
    (simp_all add: post_def replace_branch_def Let_def andThen_def ok_def
      split: option.splits sum.splits prod.splits)

lemmas post_step_leaf =
  post_step_unfold post_reuse_leaf post_replace post_unmount_leaf post_mount_leaf

lemma renderedAt_upd [simp]:
  "renderedAt c k (upd r f w) =
     (if c = r \<and> renderedChildren (f (heap w r)) \<noteq> renderedChildren (heap w r)
      then (case renderedChildren (f (heap w r)) of None \<Rightarrow> None | Some m \<Rightarrow> childAt m k)
      else renderedAt c k w)"
  by (simp add: renderedAt_def)

lemma renderedAt_other [simp]:
  "renderedAt c k (logCall a w) = renderedAt c k w"
  "renderedAt c k (removeChild nodeID p w) = renderedAt c k w"
  "renderedAt c k (createChild nodeID p m w) = renderedAt c k w"
  "renderedAt c k (moveChild nodeID p t l w) = renderedAt c k w"
  by (simp_all add: renderedAt_def)

lemma childAt_delete [simp]:
  "childAt (AList.delete name m) k = (if k = name then None else childAt m k)"
  by (simp add: childAt_def delete_conv')

lemma childAt_update [simp]:
  "childAt (AList.update name v m) k = (if k = name then v else childAt m k)"
  by (simp add: childAt_def update_conv')

lemma childAt_Nil [simp]: "childAt [] k = None"
  by (simp add: childAt_def)

lemma prevChildAt_simps:
  "prevChildAt True c k w = None"
  "prevChildAt False c k w = renderedAt c k w"
  by (simp_all add: prevChildAt_def renderedAt_def)

lemma step_statics:
  "post (secondPass_step (leaf gp mk) c nodeID idPrefix pn (name, nx) (li, ni, lc)) w
     (\<lambda>r w'. \<forall>x. nodeCount (heap w' x) = nodeCount (heap w x) \<and>
                  ctor (heap w' x) = ctor (heap w x) \<and>
                  isComponent (heap w' x) = isComponent (heap w x))"
  by (simp add: post_step_leaf Let_def split: option.splits)

lemma step_map_other:
  "post (secondPass_step (leaf gp mk) c nodeID idPrefix pn (name, nx) (li, ni, lc)) w
     (\<lambda>r w'. \<forall>k. k \<noteq> name \<longrightarrow> renderedAt c k w' = renderedAt c k w)"
  by (simp add: post_step_leaf Let_def renderedAt_def[of c _ w] split: option.splits)

lemma step_map_at:
  "post (secondPass_step (leaf gp mk) c nodeID idPrefix pn (name, nx) (li, ni, lc)) w
     (\<lambda>r w'. renderedAt c name w' = renderedAt c name w \<or> renderedAt c name w' = nx \<or>
              renderedAt c name w' = None)"
  by (simp add: post_step_leaf Let_def renderedAt_def[of c _ w] split: option.splits)

lemma step_mountIndex:
  "post (secondPass_step (leaf gp mk) c nodeID idPrefix pn (name, nx) (li, ni, lc)) w
     (\<lambda>r w'. \<forall>x. mountIndex (heap w' x) = mountIndex (heap w x) \<or>
                  (prevChildAt pn c name w = Some x \<and> mountIndex (heap w' x) = None))"
  by (simp add: post_step_leaf Let_def split: option.splits)


lemma step_result:
  "post (secondPass_step (leaf gp mk) c nodeID idPrefix pn (name, nx) (li, ni, lc)) w
     (\<lambda>r w'. \<forall>li' ni' lc'. r = Inr (li', ni', lc') \<longrightarrow>
        li' = (case prevChildAt pn c name w of
                 None \<Rightarrow> li
               | Some p \<Rightarrow> max (num (mountIndex (heap w p))) li) \<and>
        ni' = ni + (case mountedOf (heap w) (prevChildAt pn c name w) nx of
                      None \<Rightarrow> 0
                    | Some m \<Rightarrow> num (nodeCount (heap w m))))"
  by (cases "prevChildAt pn c name w"; cases nx)
    (simp_all add: post_step_leaf Let_def shouldUpdateChild_def mountedOf_def
      split: option.splits)

lemma step_reuse:
  assumes "prevChildAt pn c name w = Some p" and "ctor (heap w p) = ctor (heap w n)"
    and "isComponent (heap w p)"
  shows
    "post (secondPass_step (leaf gp mk) c nodeID idPrefix pn (name, Some n) (li, ni, lc)) w
       (\<lambda>r w'. r = Inr (max (num (mountIndex (heap w p))) li,
                        ni + num (nodeCount (heap w p)), Some p) \<and>
          updateQueue w' = updateQueue w @
            (if num (mountIndex (heap w p)) < li
             then [moveRecord nodeID (nodeCount (heap w p)) (mountIndex (heap w p)) (Some ni)]
             else []) \<and>
          markupQueue w' = markupQueue w \<and>
          calls w' = calls w @ [ReceiveProps p (props (heap w n))] \<and>
          renderedChildren (heap w' c) = renderedChildren (heap w c) \<and>
          (\<forall>x. mountIndex (heap w' x) = mountIndex (heap w x)))"
  using assms
  by (simp add: post_step_leaf Let_def shouldUpdateChild_def less_max_iff_disj)

lemma heap_upd_other: "x \<noteq> r \<Longrightarrow> heap (upd r f w) x = heap w x"
  by (simp add: heap_upd)

lemma heap_other [simp]:
  "heap (logCall a w) = heap w"
  by simp

lemma step_frame_fields:
  "post (secondPass_step (leaf gp mk) c nodeID idPrefix pn (name, nx) (li, ni, lc)) w
     (\<lambda>r w'. \<forall>x. prevChildAt pn c name w \<noteq> Some x \<longrightarrow> nx \<noteq> Some x \<longrightarrow>
        rootNodeID (heap w' x) = rootNodeID (heap w x) \<and>
        parentComponent (heap w' x) = parentComponent (heap w x) \<and>
        mountIndex (heap w' x) = mountIndex (heap w x) \<and>
        props (heap w' x) = props (heap w x))"
  by (cases "prevChildAt pn c name w"; cases nx)
    (simp_all add: post_step_leaf Let_def shouldUpdateChild_def split: option.splits)

lemma step_frame:
  assumes "x \<noteq> c" and "prevChildAt pn c name w \<noteq> Some x" and "nx \<noteq> Some x"
  shows "post (secondPass_step (leaf gp mk) c nodeID idPrefix pn (name, nx) (li, ni, lc)) w
     (\<lambda>r w'. heap w' x = heap w x)"
proof -
  have a: "\<And>r. prevChildAt pn c name w = Some r \<Longrightarrow> x \<noteq> r"
    and b: "\<And>r. nx = Some r \<Longrightarrow> x \<noteq> r"
    using assms by auto
  show ?thesis
    using assms(1)
    by (cases "prevChildAt pn c name w"; cases nx)
      (simp_all add: post_step_leaf Let_def shouldUpdateChild_def heap_upd_other a b
        split: option.splits)
qed

lemma step_calls_other:
  assumes "prevChildAt pn c name w \<noteq> Some p" and "nx \<noteq> Some p"
  shows
    "post (secondPass_step (leaf gp mk) c nodeID idPrefix pn (name, nx) (li, ni, lc)) w
       (\<lambda>r w'. filter (\<lambda>a. target a = p) (calls w') = filter (\<lambda>a. target a = p) (calls w))"
  using assms
  by (cases "prevChildAt pn c name w"; cases nx)
    (simp_all add: post_step_leaf Let_def shouldUpdateChild_def split: option.splits)

lemma step_queues_only_grow:
  "post (secondPass_step (leaf gp mk) c nodeID idPrefix pn (name, nx) (li, ni, lc)) w
     (\<lambda>r w'. prefix (updateQueue w) (updateQueue w') \<and> prefix (calls w) (calls w'))"
  by (cases "prevChildAt pn c name w"; cases nx)
    (simp_all add: post_step_leaf Let_def shouldUpdateChild_def split: option.splits)

section \<open>The second pass with leaf children\<close>

lemma post_secondPass_Nil [simp]:
  "post (secondPass C c nodeID idPrefix pn [] st) w Q = Q (Inr st) w"
  by (simp add: post_def ok_def)

lemma post_secondPass_Cons:
  "post (secondPass C c nodeID idPrefix pn (e # es) st) w Q =
     post (secondPass_step C c nodeID idPrefix pn e st) w
       (\<lambda>r w1. case r of
          Inl x \<Rightarrow> Q (Inl x) w1
        | Inr st1 \<Rightarrow> post (secondPass C c nodeID idPrefix pn es st1) w1 Q)"
  by (simp add: post_def andThen_def split: option.splits sum.splits prod.splits)

text \<open>
  The loop rule: an invariant of the processed entries, the loop state and the world
  that every iteration re-establishes holds when the loop returns normally; and the
  loop does return.
\<close>

lemma secondPass_invariant:
  assumes "I pre st w"
    and "\<And>pre' e rest st w. pre @ es = pre' @ e # rest \<Longrightarrow> I pre' st w \<Longrightarrow>
           post (secondPass_step C c nodeID idPrefix pn e st) w
             (\<lambda>r w'. \<forall>st'. r = Inr st' \<longrightarrow> I (pre' @ [e]) st' w')"
  shows "post (secondPass C c nodeID idPrefix pn es st) w
           (\<lambda>r w'. \<forall>st'. r = Inr st' \<longrightarrow> I (pre @ es) st' w')"
  using assms
proof (induction es arbitrary: pre st w)
  case Nil
  then show ?case by auto
next
  case (Cons e es)
  have step: "post (secondPass_step C c nodeID idPrefix pn e st) w
             (\<lambda>r w'. \<forall>st'. r = Inr st' \<longrightarrow> I (pre @ [e]) st' w')"
    using Cons.prems(2)[of pre e es st w] Cons.prems(1) by simp
  show ?case
    unfolding post_secondPass_Cons
  proof (rule post_mono[OF step])
    fix r w1
    assume a: "\<forall>st'. r = Inr st' \<longrightarrow> I (pre @ [e]) st' w1"
    show "case r of
          Inl x \<Rightarrow> \<forall>st'. Inl x = Inr st' \<longrightarrow> I (pre @ e # es) st' w1
        | Inr st1 \<Rightarrow> post (secondPass C c nodeID idPrefix pn es st1) w1
             (\<lambda>r w'. \<forall>st'. r = Inr st' \<longrightarrow> I (pre @ e # es) st' w')"
    proof (cases r)
      case (Inl x)
      then show ?thesis by simp
    next
      case (Inr st1)
      with a have i: "I (pre @ [e]) st1 w1" by simp
      have "post (secondPass C c nodeID idPrefix pn es st1) w1
             (\<lambda>r w'. \<forall>st'. r = Inr st' \<longrightarrow> I ((pre @ [e]) @ es) st' w')"
      proof (rule Cons.IH[OF i])
        fix pre' e' rest st w
        assume "(pre @ [e]) @ es = pre' @ e' # rest" and "I pre' st w"
        then show "post (secondPass_step C c nodeID idPrefix pn e' st) w
             (\<lambda>r w'. \<forall>st'. r = Inr st' \<longrightarrow> I (pre' @ [e']) st' w')"
          using Cons.prems(2)[of pre' e' rest st w] by simp
      qed
      with Inr show ?thesis by simp
    qed
  qed
qed


section \<open>The first pass\<close>

lemma firstPass_shape: "\<exists>v. firstPass m l h x = (h x)\<lparr>mountIndex := v\<rparr>"
proof (induction m l h rule: firstPass.induct)
  case (1 lastIndex h)
  have "h x = (h x)\<lparr>mountIndex := mountIndex (h x)\<rparr>" by simp
  then show ?case by (metis firstPass.simps(1))
next
  case (2 name rest lastIndex h)
  then show ?case by simp
next
  case (3 name prevChild rest lastIndex h)
  let ?h1 = "h(prevChild := (h prevChild)\<lparr>mountIndex := Some lastIndex\<rparr>)"
  from 3[OF refl] obtain v where
    "firstPass rest (lastIndex + num (nodeCount (?h1 prevChild))) ?h1 x = (?h1 x)\<lparr>mountIndex := v\<rparr>"
    by blast
  moreover have "(?h1 x)\<lparr>mountIndex := v\<rparr> = (h x)\<lparr>mountIndex := v\<rparr>" by simp
  moreover have "firstPass ((name, Some prevChild) # rest) lastIndex h x =
      firstPass rest (lastIndex + num (nodeCount (?h1 prevChild))) ?h1 x"
    by (simp add: Let_def)
  ultimately show ?case by metis
qed

lemma firstPass_other: "x \<notin> set (childRefs m) \<Longrightarrow> firstPass m l h x = h x"
  by (induction m l h rule: firstPass.induct) (auto simp: Let_def)

lemma firstPass_fields:
  "rootNodeID (firstPass m l h x) = rootNodeID (h x)"
  "ctor (firstPass m l h x) = ctor (h x)"
  "props (firstPass m l h x) = props (h x)"
  "isComponent (firstPass m l h x) = isComponent (h x)"
  "nodeCount (firstPass m l h x) = nodeCount (h x)"
  "parentComponent (firstPass m l h x) = parentComponent (h x)"
  "previousSibling (firstPass m l h x) = previousSibling (h x)"
  "firstRenderedChild (firstPass m l h x) = firstRenderedChild (h x)"
  "renderedChildren (firstPass m l h x) = renderedChildren (h x)"
proof -
  obtain v where "firstPass m l h x = (h x)\<lparr>mountIndex := v\<rparr>"
    using firstPass_shape by blast
  then show
    "rootNodeID (firstPass m l h x) = rootNodeID (h x)"
    "ctor (firstPass m l h x) = ctor (h x)"
    "props (firstPass m l h x) = props (h x)"
    "isComponent (firstPass m l h x) = isComponent (h x)"
    "nodeCount (firstPass m l h x) = nodeCount (h x)"
    "parentComponent (firstPass m l h x) = parentComponent (h x)"
    "previousSibling (firstPass m l h x) = previousSibling (h x)"
    "firstRenderedChild (firstPass m l h x) = firstRenderedChild (h x)"
    "renderedChildren (firstPass m l h x) = renderedChildren (h x)"
    by simp_all
qed

lemma firstPass_prefixSums:
  "distinct (childRefs m) \<Longrightarrow>
   map (\<lambda>r. mountIndex (firstPass m l h r)) (childRefs m) =
   map Some (prefixSums l (map (\<lambda>r. num (nodeCount (h r))) (childRefs m)))"
proof (induction m l h rule: firstPass.induct)
  case (3 name prevChild rest lastIndex h)
  let ?h1 = "h(prevChild := (h prevChild)\<lparr>mountIndex := Some lastIndex\<rparr>)"
  let ?l1 = "lastIndex + num (nodeCount (h prevChild))"
  from 3 have d: "prevChild \<notin> set (childRefs rest)" "distinct (childRefs rest)" by simp_all
  have here: "mountIndex (firstPass rest ?l1 ?h1 prevChild) = Some lastIndex"
    using d(1) by (simp add: firstPass_other)
  have counts: "map (\<lambda>r. num (nodeCount (?h1 r))) (childRefs rest) =
      map (\<lambda>r. num (nodeCount (h r))) (childRefs rest)"
    by (rule map_cong) auto
  have l1: "lastIndex + num (nodeCount (?h1 prevChild)) = ?l1" by simp
  have "map (\<lambda>r. mountIndex (firstPass rest ?l1 ?h1 r)) (childRefs rest) =
        map Some (prefixSums ?l1 (map (\<lambda>r. num (nodeCount (?h1 r))) (childRefs rest)))"
    using 3(1)[OF refl d(2)] unfolding l1 .
  then have rest: "map (\<lambda>r. mountIndex (firstPass rest ?l1 ?h1 r)) (childRefs rest) =
        map Some (prefixSums ?l1 (map (\<lambda>r. num (nodeCount (h r))) (childRefs rest)))"
    unfolding counts .
  have "firstPass ((name, Some prevChild) # rest) lastIndex h = firstPass rest ?l1 ?h1"
    by (simp add: Let_def)
  with here rest show ?case by simp
qed simp_all

lemma prefixSums_sorted:
  "\<forall>x \<in> set xs. 0 \<le> x \<Longrightarrow> sorted (prefixSums l xs) \<and> (\<forall>y \<in> set (prefixSums l xs). l \<le> y)"
proof (induction xs arbitrary: l)
  case (Cons x xs)
  from Cons.IH[of "l + x"] Cons.prems show ?case by force
qed simp

lemma prefixSums_strict:
  "\<forall>x \<in> set xs. 0 < x \<Longrightarrow>
   sorted_wrt (<) (prefixSums l xs) \<and> (\<forall>y \<in> set (prefixSums l xs). l \<le> y)"
proof (induction xs arbitrary: l)
  case (Cons x xs)
  from Cons.IH[of "l + x"] Cons.prems show ?case by force
qed simp

section \<open>The walk up the ancestors\<close>

lemma below_upd_nodeCount:
  "below (heap (upd a (\<lambda>c. c\<lparr>nodeCount := v c\<rparr>) w)) nodeID start ancs =
   below (heap w) nodeID start ancs"
  by (induction ancs arbitrary: start) (simp_all split: option.splits)

lemma ancestor_loop_below:
  assumes "below (heap w) nodeID start ancs" and "distinct ancs"
  shows "\<exists>w'. ancestor_loop nodeID d start w = Some w' \<and>
           (\<forall>x. heap w' x =
              (if x \<in> set ancs
               then (heap w x)\<lparr>nodeCount := Some (num (nodeCount (heap w x)) + d)\<rparr>
               else heap w x)) \<and>
           updateDepth w' = updateDepth w \<and> updateQueue w' = updateQueue w \<and>
           markupQueue w' = markupQueue w \<and> applied w' = applied w \<and> calls w' = calls w"
  using assms
proof (induction ancs arbitrary: w start)
  case Nil
  then show ?case
    by (subst ancestor_loop.simps) (auto split: option.splits)
next
  case (Cons a ancs)
  let ?w1 = "upd a (\<lambda>c. c\<lparr>nodeCount := Some (num (nodeCount c) + d)\<rparr>) w"
  from Cons.prems have s: "start = Some a" and r: "rootNodeID (heap w a) \<noteq> nodeID"
    and b: "below (heap w) nodeID (parentComponent (heap w a)) ancs"
    and n: "a \<notin> set ancs" and dd: "distinct ancs" by simp_all
  have b1: "below (heap ?w1) nodeID (parentComponent (heap w a)) ancs"
    using b by (simp add: below_upd_nodeCount)
  from Cons.IH[OF b1 dd] obtain w' where
    l: "ancestor_loop nodeID d (parentComponent (heap w a)) ?w1 = Some w'" and
    h: "\<forall>x. heap w' x =
              (if x \<in> set ancs
               then (heap ?w1 x)\<lparr>nodeCount := Some (num (nodeCount (heap ?w1 x)) + d)\<rparr>
               else heap ?w1 x)" and
    o: "updateDepth w' = updateDepth ?w1" "updateQueue w' = updateQueue ?w1"
       "markupQueue w' = markupQueue ?w1" "applied w' = applied ?w1" "calls w' = calls ?w1"
    by blast
  have "ancestor_loop nodeID d start w = Some w'"
    using s r l by (subst ancestor_loop.simps) simp
  moreover have "\<forall>x. heap w' x =
              (if x \<in> set (a # ancs)
               then (heap w x)\<lparr>nodeCount := Some (num (nodeCount (heap w x)) + d)\<rparr>
               else heap w x)"
    using h n by (auto simp: heap_upd)
  ultimately show ?case using o by simp
qed

section \<open>Mount indices\<close>

lemma post_mountChildren_loop_Cons_leaf:
  "post (mountChildren_loop (leaf gp mk) c idPrefix ((name, Some child) # rest) (imgs, idx, lc)) w Q =
     (if isComponent (heap w child)
      then (let w1 = logCall (Mount child (idPrefix @ name))
                       (upd child (\<lambda>x. x\<lparr>rootNodeID := idPrefix @ name\<rparr>) w);
                w2 = (if lc = None
                      then upd c (\<lambda>x. x\<lparr>firstRenderedChild := Some child\<rparr>) w1 else w1);
                w3 = upd child (\<lambda>x. x\<lparr>parentComponent := Some c\<rparr>) w2;
                w4 = upd child (\<lambda>x. x\<lparr>previousSibling := lc\<rparr>) w3
            in post (mountChildren_loop (leaf gp mk) c idPrefix rest
                       (imgs @ [mk child (idPrefix @ name)],
                        idx + num (nodeCount (heap w4 child)), Some child)) w4 Q)
      else Q (Inl TypeError) w)"
  by (simp add: post_def andThen_def leaf_mountComponent_def ok_def throw_def Let_def)

lemma mountChildren_loop_mountIndex:
  "post (mountChildren_loop (leaf gp mk) c idPrefix m st) w
     (\<lambda>r w'. \<forall>x. mountIndex (heap w' x) = mountIndex (heap w x))"
proof (induction m arbitrary: st w)
  case Nil
  then show ?case by (simp add: post_def ok_def)
next
  case (Cons e m)
  obtain name v where e: "e = (name, v)" by (cases e)
  obtain imgs idx lc where st: "st = (imgs, idx, lc)" by (cases st)
  show ?case
  proof (cases v)
    case None
    with e Cons show ?thesis by (simp add: post_def)
  next
    case (Some child)
    show ?thesis
      unfolding e Some st post_mountChildren_loop_Cons_leaf
      by (auto simp: Let_def intro: post_mono[OF Cons])
  qed
qed

lemma mountChildren_mountIndex:
  assumes "mountChildren (leaf gp mk) c idPrefix cm w = Some (r, w')"
  shows "mountIndex (heap w' x) = mountIndex (heap w x)"
proof -
  let ?m = "case cm of None \<Rightarrow> [] | Some m \<Rightarrow> m"
  from assms obtain r1 w1 where
    l: "mountChildren_loop (leaf gp mk) c idPrefix ?m ([], 0, None) w = Some (r1, w1)"
    by (auto simp: mountChildren_def andThen_def split: option.splits)
  from postD[OF mountChildren_loop_mountIndex l]
  have m1: "mountIndex (heap w1 x) = mountIndex (heap w x)" by simp
  from assms l have "mountIndex (heap w' x) = mountIndex (heap w1 x)"
    by (cases r1) (auto simp: mountChildren_def andThen_def ok_def Let_def split: prod.splits if_splits)
  with m1 show ?thesis by simp
qed

section \<open>Children maps\<close>

lemma childAt_mem: "childAt m k = Some q \<Longrightarrow> q \<in> set (childRefs m)"
proof (induction m rule: childRefs.induct)
  case 1
  then show ?case by simp
next
  case (2 k' rest)
  then show ?case by (cases "k = k'") (auto simp: childAt_def)
next
  case (3 k' r rest)
  then show ?case by (cases "k = k'") (auto simp: childAt_def)
qed

lemma entry_mem: "(k, Some q) \<in> set m \<Longrightarrow> q \<in> set (childRefs m)"
  by (induction m rule: childRefs.induct) auto

lemma childAt_entry: "distinct (map fst m) \<Longrightarrow> (k, v) \<in> set m \<Longrightarrow> childAt m k = v"
  by (simp add: childAt_def)

lemma childAt_split:
  assumes "distinct (map fst m)" and "m = pre @ (k, v) # rest"
  shows "k \<notin> fst ` set pre" and "childAt m k = v"
proof -
  from assms show "k \<notin> fst ` set pre" by auto
  from assms(2) have "(k, v) \<in> set m" by simp
  with assms(1) show "childAt m k = v" by (rule childAt_entry)
qed

lemma childAt_inj:
  assumes "distinct (childRefs m)" and "distinct (map fst m)"
    and "childAt m k = Some q" and "childAt m k' = Some q"
  shows "k = k'"
  using assms
proof (induction m rule: childRefs.induct)
  case 1
  then show ?case by simp
next
  case (2 k0 rest)
  then show ?case by (auto simp: childAt_def split: if_splits)
next
  case (3 k0 r rest)
  have m: "\<And>j. childAt rest j = Some q \<Longrightarrow> q \<in> set (childRefs rest)" by (rule childAt_mem)
  have r: "childAt ((k0, Some r) # rest) j = (if j = k0 then Some r else childAt rest j)" for j
    by (simp add: childAt_def)
  show ?case
  proof (cases "k = k0")
    case True
    with 3(4) r have q: "r = q" by simp
    show ?thesis
    proof (cases "k' = k0")
      case True
      with \<open>k = k0\<close> show ?thesis by simp
    next
      case False
      with 3(5) r have "childAt rest k' = Some q" by simp
      from m[OF this] q 3(2) show ?thesis by simp
    qed
  next
    case False
    with 3(4) r have kq: "childAt rest k = Some q" by simp
    show ?thesis
    proof (cases "k' = k0")
      case True
      with 3(5) r have "r = q" by simp
      with m[OF kq] 3(2) show ?thesis by simp
    next
      case False
      with 3(5) r have "childAt rest k' = Some q" by simp
      with 3(1) 3(2) 3(3) kq show ?thesis by simp
    qed
  qed
qed

section \<open>The pieces of an update\<close>

lemma depthGuard_heap:
  assumes "depthGuard body w = Some (Inr u, w')"
  shows "\<exists>w1. body (entered w) = Some (Inr (), w1) \<and> heap w' = heap w1 \<and> calls w' = calls w1"
proof -
  from assms obtain r1 w1 where b: "body (entered w) = Some (r1, w1)"
    by (auto simp: depthGuard_def entered_def split: option.splits)
  from assms b have r1: "r1 = Inr ()"
    by (cases r1) (auto simp: depthGuard_def entered_def Let_def)
  from assms b r1 have "heap w' = heap w1 \<and> calls w' = calls w1"
    by (auto simp: depthGuard_def entered_def Let_def processQueue_def clearQueue_def
        split: if_splits)
  with b r1 show ?thesis by blast
qed

lemma ancestor_loop_fields:
  assumes "ancestor_loop nodeID d a w = Some w'"
  shows "(\<forall>x. \<exists>v. heap w' x = (heap w x)\<lparr>nodeCount := v\<rparr>) \<and> calls w' = calls w"
proof (rule ancestor_loop.raw_induct
    [where P = "\<lambda>nodeID d a w w'.
         (\<forall>x. \<exists>v. heap w' x = (heap w x)\<lparr>nodeCount := v\<rparr>) \<and> calls w' = calls w", OF _ assms])
  fix f nodeID nodeCountDiff ancestor w w'
  assume IH: "\<And>nodeID d a w y. f nodeID d a w = Some y \<Longrightarrow>
        (\<forall>x. \<exists>v. heap y x = (heap w x)\<lparr>nodeCount := v\<rparr>) \<and> calls y = calls w"
    and body: "(case ancestor of None \<Rightarrow> Some w
      | Some a \<Rightarrow>
          if rootNodeID (heap w a) = nodeID then Some w
          else f nodeID nodeCountDiff (parentComponent (heap w a))
                 (upd a (\<lambda>c. c\<lparr>nodeCount := Some (num (nodeCount c) + nodeCountDiff)\<rparr>) w)) =
     Some w'"
  have same: "\<forall>x. \<exists>v. heap w x = (heap w x)\<lparr>nodeCount := v\<rparr>"
  proof
    fix x
    have "heap w x = (heap w x)\<lparr>nodeCount := nodeCount (heap w x)\<rparr>" by simp
    then show "\<exists>v. heap w x = (heap w x)\<lparr>nodeCount := v\<rparr>" ..
  qed
  show "(\<forall>x. \<exists>v. heap w' x = (heap w x)\<lparr>nodeCount := v\<rparr>) \<and> calls w' = calls w"
  proof (cases ancestor)
    case None
    with body same show ?thesis by simp
  next
    case (Some a)
    show ?thesis
    proof (cases "rootNodeID (heap w a) = nodeID")
      case True
      with Some body same show ?thesis by simp
    next
      case False
      let ?w1 = "upd a (\<lambda>c. c\<lparr>nodeCount := Some (num (nodeCount c) + nodeCountDiff)\<rparr>) w"
      from False Some body have "f nodeID nodeCountDiff (parentComponent (heap w a)) ?w1 = Some w'"
        by simp
      from IH[OF this] have
        h: "\<forall>x. \<exists>v. heap w' x = (heap ?w1 x)\<lparr>nodeCount := v\<rparr>" and c: "calls w' = calls w"
        by simp_all
      have "\<exists>v. heap w' x = (heap w x)\<lparr>nodeCount := v\<rparr>" for x
      proof -
        from h obtain v where v: "heap w' x = (heap ?w1 x)\<lparr>nodeCount := v\<rparr>" by blast
        have "(heap ?w1 x)\<lparr>nodeCount := v\<rparr> = (heap w x)\<lparr>nodeCount := v\<rparr>"
          by (simp add: heap_upd)
        with v show ?thesis by metis
      qed
      with c show ?thesis by blast
    qed
  qed
qed

lemma andThen_InrD:
  "andThen m f w = Some (Inr y, w') \<Longrightarrow> \<exists>x w1. m w = Some (Inr x, w1) \<and> f x w1 = Some (Inr y, w')"
  by (auto simp: andThen_cases)

lemma keyedDiff_unfold:
  assumes "nodeCountBefore_loop (heap w) nodeID (firstRenderedChild (heap w c)) 0 = Some 0"
  shows "keyedDiff C c nodeID idPrefix nextChildren w =
    andThen
      (secondPass C c nodeID idPrefix (renderedChildren (heap w c) = None)
         (case nextChildren of None \<Rightarrow> [] | Some m \<Rightarrow> m) (0, 0, None))
      (\<lambda>st w2.
         andThen
           (thirdPass C c nodeID nextChildren
              (if renderedChildren (heap w c) = None then []
               else (case renderedChildren (heap w2 c) of None \<Rightarrow> [] | Some m \<Rightarrow> map fst m)))
           (\<lambda>_ w3.
              case ancestor_loop nodeID (fst (snd st) - num (nodeCount (heap w3 c)))
                     (parentComponent (heap w3 c))
                     (upd c (\<lambda>x. x\<lparr>nodeCount := Some (fst (snd st))\<rparr>) w3) of
                None \<Rightarrow> None
              | Some w5 \<Rightarrow> ok () w5)
           w2)
      (w\<lparr>heap := firstPass (case renderedChildren (heap w c) of None \<Rightarrow> [] | Some m \<Rightarrow> m) 0
                   (heap w)\<rparr>)"
proof -
  have u: "upd c (\<lambda>x. x\<lparr>nodeCount := Some (num (nodeCount x) + (ni - num (nodeCount (heap w3 c))))\<rparr>) w3
      = upd c (\<lambda>x. x\<lparr>nodeCount := Some ni\<rparr>) w3" for ni w3
    by (simp add: upd_def)
  show ?thesis
    by (simp add: keyedDiff_def Let_def assms u split_def)
qed

lemma keyedDiff_InrD:
  assumes "keyedDiff C c nodeID idPrefix nextChildren w = Some (Inr u, w')"
  shows "\<exists>li ni lc w2 w3.
    nodeCountBefore_loop (heap w) nodeID (firstRenderedChild (heap w c)) 0 = Some 0 \<and>
    secondPass C c nodeID idPrefix (renderedChildren (heap w c) = None)
      (case nextChildren of None \<Rightarrow> [] | Some m \<Rightarrow> m) (0, 0, None)
      (w\<lparr>heap := firstPass (case renderedChildren (heap w c) of None \<Rightarrow> [] | Some m \<Rightarrow> m) 0
                   (heap w)\<rparr>) = Some (Inr (li, ni, lc), w2) \<and>
    thirdPass C c nodeID nextChildren
      (if renderedChildren (heap w c) = None then []
       else (case renderedChildren (heap w2 c) of None \<Rightarrow> [] | Some m \<Rightarrow> map fst m)) w2 =
      Some (Inr (), w3) \<and>
    ancestor_loop nodeID (ni - num (nodeCount (heap w3 c)))
      (parentComponent (heap w3 c))
      (upd c (\<lambda>x. x\<lparr>nodeCount := Some ni\<rparr>) w3) = Some w'"
proof -
  from assms have ncb: "nodeCountBefore_loop (heap w) nodeID (firstRenderedChild (heap w c)) 0 = Some 0"
    by (auto simp: keyedDiff_def Let_def throw_def split: option.splits if_splits)
  from andThen_InrD[OF assms[unfolded keyedDiff_unfold[OF ncb]]]
  obtain st w2 where
    sp: "secondPass C c nodeID idPrefix (renderedChildren (heap w c) = None)
      (case nextChildren of None \<Rightarrow> [] | Some m \<Rightarrow> m) (0, 0, None)
      (w\<lparr>heap := firstPass (case renderedChildren (heap w c) of None \<Rightarrow> [] | Some m \<Rightarrow> m) 0
                   (heap w)\<rparr>) = Some (Inr st, w2)" and
    r: "andThen
           (thirdPass C c nodeID nextChildren
              (if renderedChildren (heap w c) = None then []
               else (case renderedChildren (heap w2 c) of None \<Rightarrow> [] | Some m \<Rightarrow> map fst m)))
           (\<lambda>_ w3.
              case ancestor_loop nodeID (fst (snd st) - num (nodeCount (heap w3 c)))
                     (parentComponent (heap w3 c))
                     (upd c (\<lambda>x. x\<lparr>nodeCount := Some (fst (snd st))\<rparr>) w3) of
                None \<Rightarrow> None
              | Some w5 \<Rightarrow> ok () w5)
           w2 = Some (Inr u, w')"
    by blast
  from andThen_InrD[OF r] obtain x w3 where
    tp: "thirdPass C c nodeID nextChildren
              (if renderedChildren (heap w c) = None then []
               else (case renderedChildren (heap w2 c) of None \<Rightarrow> [] | Some m \<Rightarrow> map fst m)) w2
          = Some (Inr x, w3)" and
    al: "(case ancestor_loop nodeID (fst (snd st) - num (nodeCount (heap w3 c)))
                     (parentComponent (heap w3 c))
                     (upd c (\<lambda>x. x\<lparr>nodeCount := Some (fst (snd st))\<rparr>) w3) of
                None \<Rightarrow> None
              | Some w5 \<Rightarrow> ok () w5) = Some (Inr u, w')"
    by blast
  from al have al': "ancestor_loop nodeID (fst (snd st) - num (nodeCount (heap w3 c)))
                     (parentComponent (heap w3 c))
                     (upd c (\<lambda>x. x\<lparr>nodeCount := Some (fst (snd st))\<rparr>) w3) = Some w'"
    by (auto simp: ok_def split: option.splits)
  obtain li ni lc where st: "st = (li, ni, lc)" by (cases st)
  from ncb sp tp al' show ?thesis unfolding st by auto
qed

lemma priv_updateChildren_InrD:
  assumes "priv_updateChildren C c idPrefix (Some nm) w = Some (Inr u, w')"
    and "resolveNodeID C c idPrefix w \<noteq> []"
  shows "keyedDiff C c (resolveNodeID C c idPrefix w) idPrefix (Some nm) w = Some (Inr u, w')"
  using assms by (simp add: priv_updateChildren_def Let_def)

lemma rootReplacement_empty:
  assumes "renderedChildren (heap w c) = None \<or> renderedChildren (heap w c) = Some []"
  shows "rootReplacement C c nextChildren w = Some (Inl TypeError, w)"
  using assms by (auto simp: rootReplacement_def throw_def Let_def split: option.splits)

section \<open>The third pass with leaf children\<close>

lemma post_thirdPass_Nil [simp]:
  "post (thirdPass C c nodeID nextChildren []) w Q = Q (Inr ()) w"
  by (simp add: post_def ok_def)

lemma post_thirdPass_Cons:
  "post (thirdPass C c nodeID nextChildren (name # rest)) w Q =
     (case renderedAt c name w of
        None \<Rightarrow> post (thirdPass C c nodeID nextChildren rest) w Q
      | Some p \<Rightarrow>
          if (case nextChildren of None \<Rightarrow> False | Some nm \<Rightarrow> childAt nm name \<noteq> None)
          then post (thirdPass C c nodeID nextChildren rest) w Q
          else post (priv_unmountChildByName C c nodeID p name) w
                 (\<lambda>r w1. case r of
                    Inl e \<Rightarrow> Q (Inl e) w1
                  | Inr u \<Rightarrow> post (thirdPass C c nodeID nextChildren rest) w1 Q))"
  by (simp add: post_def prevChildAt_simps andThen_def
      split: option.splits sum.splits prod.splits)

text \<open>
  The loop rule of the third pass: an invariant that every unmount of a child whose key
  the next children lack re-establishes holds when the pass returns normally.
\<close>

lemma thirdPass_invariant:
  assumes "I w"
    and "\<And>name p w. I w \<Longrightarrow> renderedAt c name w = Some p \<Longrightarrow>
           \<not> (case nextChildren of None \<Rightarrow> False | Some nm \<Rightarrow> childAt nm name \<noteq> None) \<Longrightarrow>
           post (priv_unmountChildByName C c nodeID p name) w (\<lambda>r w'. \<forall>u. r = Inr u \<longrightarrow> I w')"
  shows "post (thirdPass C c nodeID nextChildren ks) w (\<lambda>r w'. \<forall>u. r = Inr u \<longrightarrow> I w')"
  using assms(1)
proof (induction ks arbitrary: w)
  case Nil
  then show ?case by simp
next
  case (Cons name ks)
  show ?case
  proof (cases "renderedAt c name w")
    case None
    with Cons show ?thesis by (subst post_thirdPass_Cons) simp
  next
    case (Some p)
    show ?thesis
    proof (cases "case nextChildren of None \<Rightarrow> False | Some nm \<Rightarrow> childAt nm name \<noteq> None")
      case True
      with Some Cons show ?thesis by (subst post_thirdPass_Cons) simp
    next
      case False
      have "post (priv_unmountChildByName C c nodeID p name) w
                 (\<lambda>r w1. case r of
                    Inl e \<Rightarrow> \<forall>u. (Inl e :: error + unit) = Inr u \<longrightarrow> I w1
                  | Inr u \<Rightarrow> post (thirdPass C c nodeID nextChildren ks) w1
                       (\<lambda>r w'. \<forall>u. r = Inr u \<longrightarrow> I w'))"
        using Cons.IH
        by (intro post_mono[OF assms(2)[OF Cons.prems Some False]]) (auto split: sum.splits)
      with Some False show ?thesis by (subst post_thirdPass_Cons) simp
    qed
  qed
qed

lemma unmount_leaf_facts:
  "post (priv_unmountChildByName (leaf gp mk) c nodeID p name) w
     (\<lambda>r w'. (\<forall>k. renderedAt c k w' = renderedAt c k w \<or> renderedAt c k w' = None) \<and>
              (\<forall>x. nodeCount (heap w' x) = nodeCount (heap w x) \<and>
                   rootNodeID (heap w' x) = rootNodeID (heap w x) \<and>
                   ctor (heap w' x) = ctor (heap w x)) \<and>
              (\<forall>x. x \<noteq> p \<longrightarrow> parentComponent (heap w' x) = parentComponent (heap w x) \<and>
                               mountIndex (heap w' x) = mountIndex (heap w x)) \<and>
              (\<forall>x. x \<noteq> p \<longrightarrow>
                   filter (\<lambda>a. target a = x) (calls w') = filter (\<lambda>a. target a = x) (calls w)))"
  by (simp add: post_unmount_leaf Let_def renderedAt_def[of c _ w] split: option.splits)

section \<open>Updates from an empty previous state\<close>

lemma prevChildAt_None:
  "renderedAt c k w = None \<Longrightarrow> prevChildAt pn c k w = None"
  by (cases pn) (simp_all add: prevChildAt_simps)

lemma secondPass_from_empty:
  assumes "\<forall>k. renderedAt c k w = None" and "distinct (map fst nm)"
  shows "post (secondPass (leaf gp mk) c nodeID idPrefix pn nm st) w
           (\<lambda>r w'. \<forall>st'. r = Inr st' \<longrightarrow>
              (\<forall>x. mountIndex (heap w' x) = mountIndex (heap w x)) \<and>
              (\<forall>k q. renderedAt c k w' = Some q \<longrightarrow> childAt nm k = Some q))"
proof -
  let ?I = "\<lambda>pre (st :: int \<times> int \<times> ref option) w'.
      (\<forall>x. mountIndex (heap w' x) = mountIndex (heap w x)) \<and>
      (\<forall>k. k \<notin> fst ` set pre \<longrightarrow> renderedAt c k w' = None) \<and>
      (\<forall>k q. renderedAt c k w' = Some q \<longrightarrow> childAt nm k = Some q)"
  have "post (secondPass (leaf gp mk) c nodeID idPrefix pn nm st) w
           (\<lambda>r w'. \<forall>st'. r = Inr st' \<longrightarrow> ?I ([] @ nm) st' w')"
  proof (rule secondPass_invariant[where I = ?I])
    show "?I [] st w" using assms(1) by simp
  next
    fix pre' :: children and e :: "string \<times> ref option" and rest :: children
      and st1 :: "int \<times> int \<times> ref option" and w1 :: world
    assume split: "[] @ nm = pre' @ e # rest" and inv: "?I pre' st1 w1"
    obtain name nx where e: "e = (name, nx)" by (cases e)
    obtain li ni lc where st1: "st1 = (li, ni, lc)" by (cases st1)
    from split e have "nm = pre' @ (name, nx) # rest" by simp
    from childAt_split[OF assms(2) this]
    have fresh: "name \<notin> fst ` set pre'" and at: "childAt nm name = nx" .
    from inv fresh have "renderedAt c name w1 = None" by simp
    then have prev: "prevChildAt pn c name w1 = None" and r0: "renderedAt c name w1 = None"
      by (simp_all add: prevChildAt_None)
    have "post (secondPass_step (leaf gp mk) c nodeID idPrefix pn (name, nx) (li, ni, lc)) w1
            (\<lambda>r w'. ((\<forall>x. mountIndex (heap w' x) = mountIndex (heap w1 x) \<or>
                  (prevChildAt pn c name w1 = Some x \<and> mountIndex (heap w' x) = None)) \<and>
               (\<forall>k. k \<noteq> name \<longrightarrow> renderedAt c k w' = renderedAt c k w1)) \<and>
               (renderedAt c name w' = renderedAt c name w1 \<or> renderedAt c name w' = nx \<or>
                renderedAt c name w' = None))"
      by (intro post_conj step_mountIndex step_map_other step_map_at)
    then show "post (secondPass_step (leaf gp mk) c nodeID idPrefix pn e st1) w1
             (\<lambda>r w'. \<forall>st'. r = Inr st' \<longrightarrow> ?I (pre' @ [e]) st' w')"
      unfolding e st1
    proof (rule post_mono)
      fix r w'
      assume a: "((\<forall>x. mountIndex (heap w' x) = mountIndex (heap w1 x) \<or>
                  (prevChildAt pn c name w1 = Some x \<and> mountIndex (heap w' x) = None)) \<and>
               (\<forall>k. k \<noteq> name \<longrightarrow> renderedAt c k w' = renderedAt c k w1)) \<and>
               (renderedAt c name w' = renderedAt c name w1 \<or> renderedAt c name w' = nx \<or>
                renderedAt c name w' = None)"
      have m: "\<forall>x. mountIndex (heap w' x) = mountIndex (heap w x)"
        using a inv prev by simp
      have o: "\<forall>k. k \<notin> fst ` set (pre' @ [(name, nx)]) \<longrightarrow> renderedAt c k w' = None"
        using a inv by simp
      have v: "renderedAt c k w' = Some q \<longrightarrow> childAt nm k = Some q" for k q
      proof (cases "k = name")
        case True
        with a r0 at show ?thesis by auto
      next
        case False
        with a inv show ?thesis by simp
      qed
      from m o v show "\<forall>st'. r = Inr st' \<longrightarrow> ?I (pre' @ [(name, nx)]) st' w'"
        by blast
    qed
  qed
  then show ?thesis
    by (rule post_mono) simp
qed

lemma thirdPass_nothing_to_remove:
  assumes "\<forall>k q. renderedAt c k w = Some q \<longrightarrow> childAt nm k = Some q"
  shows "thirdPass C c nodeID (Some nm) ks w = Some (Inr (), w)"
  using assms
proof (induction ks)
  case Nil
  then show ?case by (simp add: ok_def)
next
  case (Cons name ks)
  then show ?case
    by (cases "renderedAt c name w") (auto simp: prevChildAt_simps)
qed

lemma update_from_empty_mountIndex:
  assumes "updateChildren (leaf gp mk) c idPrefix (Some nm) w = Some (Inr u, w')"
    and "renderedChildren (heap w c) = None \<or> renderedChildren (heap w c) = Some []"
    and "distinct (map fst nm)"
  shows "mountIndex (heap w' x) = mountIndex (heap w x)"
proof -
  let ?C = "leaf gp mk"
  let ?nodeID = "resolveNodeID ?C c idPrefix (entered w)"
  have he: "heap (entered w) = heap w" by (simp add: entered_def)
  from depthGuard_heap[OF assms(1)[unfolded updateChildren_def]] obtain w5 where
    b: "priv_updateChildren ?C c idPrefix (Some nm) (entered w) = Some (Inr (), w5)" and
    h: "heap w' = heap w5"
    by blast
  have nz: "?nodeID \<noteq> []"
  proof
    assume "?nodeID = []"
    with b have "rootReplacement ?C c (Some nm) (entered w) = Some (Inr (), w5)"
      by (simp add: priv_updateChildren_def Let_def)
    with rootReplacement_empty[of "entered w" c ?C "Some nm"] assms(2) he show False by simp
  qed
  have fp: "(entered w)\<lparr>heap := firstPass (case renderedChildren (heap (entered w) c) of
                 None \<Rightarrow> [] | Some m \<Rightarrow> m) 0 (heap (entered w))\<rparr> = entered w"
    using assms(2) he by auto
  from keyedDiff_InrD[OF priv_updateChildren_InrD[OF b nz]] obtain li ni lc w2 w3 where
    sp: "secondPass ?C c ?nodeID idPrefix (renderedChildren (heap (entered w) c) = None)
           nm (0, 0, None) (entered w) = Some (Inr (li, ni, lc), w2)" and
    tp: "thirdPass ?C c ?nodeID (Some nm)
          (if renderedChildren (heap (entered w) c) = None then []
           else (case renderedChildren (heap w2 c) of None \<Rightarrow> [] | Some m \<Rightarrow> map fst m)) w2 =
          Some (Inr (), w3)" and
    al: "ancestor_loop ?nodeID (ni - num (nodeCount (heap w3 c))) (parentComponent (heap w3 c))
          (upd c (\<lambda>x. x\<lparr>nodeCount := Some ni\<rparr>) w3) = Some w5"
    unfolding fp by auto
  have e0: "\<forall>k. renderedAt c k (entered w) = None"
    using assms(2) he by (auto simp: renderedAt_def)
  from postD[OF secondPass_from_empty[OF e0 assms(3)] sp]
  have m2: "\<forall>x. mountIndex (heap w2 x) = mountIndex (heap w x)"
    and v2: "\<forall>k q. renderedAt c k w2 = Some q \<longrightarrow> childAt nm k = Some q"
    using he by simp_all
  from tp thirdPass_nothing_to_remove[OF v2] have w3: "w3 = w2" by simp
  from ancestor_loop_fields[OF al] obtain v where
    "heap w5 x = (heap (upd c (\<lambda>x. x\<lparr>nodeCount := Some ni\<rparr>) w3) x)\<lparr>nodeCount := v\<rparr>"
    by blast
  then have "mountIndex (heap w5 x) = mountIndex (heap w3 x)" by simp
  with h w3 m2 show ?thesis by simp
qed

section \<open>Where mount indices come from\<close>

lemma outcome_returnsE:
  assumes "case x of None \<Rightarrow> False | Some (Inl e, w') \<Rightarrow> False | Some (Inr v, w') \<Rightarrow> P v w'"
  obtains v w' where "x = Some (Inr v, w')" and "P v w'"
proof (cases x)
  case None
  with assms show ?thesis by simp
next
  case (Some rw)
  then obtain r w' where x: "x = Some (r, w')" by (cases rw) simp
  show ?thesis
  proof (cases r)
    case (Inl e)
    with x assms show ?thesis by simp
  next
    case (Inr v)
    with x assms that show ?thesis by simp
  qed
qed

text \<open>
  C2, evaluated at a component without rendered children and two fresh objects, of two
  and of three nodes, under the keys \<open>a\<close> and \<open>b\<close>.  \<open>mountChildren\<close> mounts both and
  leaves the \<open>_mountIndex\<close> of both unset, where the running totals are \<open>0\<close> and \<open>2\<close>.
  \<open>updateChildren\<close>, applied to the same children from the empty previous state, mounts
  both, leaves the \<open>_mountIndex\<close> of both unset as well, and hands over two
  \<open>INSERT_MARKUP\<close> records that carry no destination index: \<open>createChild\<close> enqueues the
  child's \<open>_mountIndex\<close>, which neither \<open>mountChildren\<close> nor \<open>_mountChildByNameAtIndex\<close>
  (whose parameter \<open>index\<close> holds the running total) ever assigns.
\<close>

theorem mountIndex_never_assigned:
  "(case mountChildren (leaf parentOfID markupOf) 0 ''.0.'' (Some childrenAB) (emptyWorld heapTwo) of
      None \<Rightarrow> False
    | Some (Inl e, w') \<Rightarrow> False
    | Some (Inr images, w') \<Rightarrow>
        images = [''<.0.a>'', ''<.0.b>''] \<and>
        calls w' = [Mount 1 ''.0.a'', Mount 2 ''.0.b''] \<and>
        nodeCount (heap w' 1) = Some 2 \<and>
        mountIndex (heap w' 1) = None \<and> mountIndex (heap w' 2) = None) \<and>
   (\<exists>w'. updateChildren (leaf parentOfID markupOf) 0 ''.0.'' (Some childrenAB)
            (emptyWorld heapTwo) = Some (Inr (), w') \<and>
      applied w' =
        [([insertRecord ''.0'' 0 None, insertRecord ''.0'' 1 None], [''<.0.a>'', ''<.0.b>''])] \<and>
      calls w' = [Mount 1 ''.0.a'', Mount 2 ''.0.b''] \<and>
      mountIndex (heap w' 1) = None \<and> mountIndex (heap w' 2) = None)"
proof
  show "case mountChildren (leaf parentOfID markupOf) 0 ''.0.'' (Some childrenAB)
             (emptyWorld heapTwo) of
      None \<Rightarrow> False
    | Some (Inl e, w') \<Rightarrow> False
    | Some (Inr images, w') \<Rightarrow>
        images = [''<.0.a>'', ''<.0.b>''] \<and>
        calls w' = [Mount 1 ''.0.a'', Mount 2 ''.0.b''] \<and>
        nodeCount (heap w' 1) = Some 2 \<and>
        mountIndex (heap w' 1) = None \<and> mountIndex (heap w' 2) = None"
    by code_simp
next
  let ?w = "emptyWorld heapTwo"
  let ?C = "leaf parentOfID markupOf"
  have "case updateChildren ?C 0 ''.0.'' (Some childrenAB) ?w of
          None \<Rightarrow> False
        | Some (Inl e, w') \<Rightarrow> False
        | Some (Inr u, w') \<Rightarrow>
            applied w' =
              [([insertRecord ''.0'' 0 None, insertRecord ''.0'' 1 None],
                [''<.0.a>'', ''<.0.b>''])] \<and>
            calls w' = [Mount 1 ''.0.a'', Mount 2 ''.0.b'']"
    by code_simp
  then obtain w' where
    run: "updateChildren ?C 0 ''.0.'' (Some childrenAB) ?w = Some (Inr (), w')" and
    out: "applied w' =
              [([insertRecord ''.0'' 0 None, insertRecord ''.0'' 1 None],
                [''<.0.a>'', ''<.0.b>''])] \<and>
            calls w' = [Mount 1 ''.0.a'', Mount 2 ''.0.b'']"
    by (rule outcome_InrE)
  have r0: "renderedChildren (heap ?w 0) = None \<or> renderedChildren (heap ?w 0) = Some []"
    by (simp add: emptyWorld_def heapTwo_def fresh_def)
  have d: "distinct (map fst childrenAB)" by (simp add: childrenAB_def)
  have m0: "mountIndex (heap ?w 1) = None" "mountIndex (heap ?w 2) = None"
    by (simp_all add: emptyWorld_def heapTwo_def fresh_def)
  from update_from_empty_mountIndex[OF run r0 d] m0
  have "mountIndex (heap w' 1) = None" "mountIndex (heap w' 2) = None" by simp_all
  with run out show "\<exists>w'. updateChildren ?C 0 ''.0.'' (Some childrenAB) ?w = Some (Inr (), w') \<and>
      applied w' =
        [([insertRecord ''.0'' 0 None, insertRecord ''.0'' 1 None], [''<.0.a>'', ''<.0.b>''])] \<and>
      calls w' = [Mount 1 ''.0.a'', Mount 2 ''.0.b''] \<and>
      mountIndex (heap w' 1) = None \<and> mountIndex (heap w' 2) = None"
    by blast
qed

section \<open>Moves and the high-water mark\<close>

lemma andThen_assoc:
  "andThen (andThen m f) g w = andThen m (\<lambda>x. andThen (f x) g) w"
  by (simp add: andThen_def split: option.splits sum.splits prod.splits)

lemma secondPass_append:
  "secondPass C c nodeID idPrefix pn (xs @ ys) st w =
     andThen (secondPass C c nodeID idPrefix pn xs st) (secondPass C c nodeID idPrefix pn ys) w"
proof (induction xs arbitrary: st w)
  case Nil
  show ?case by simp
next
  case (Cons e xs)
  have "secondPass C c nodeID idPrefix pn ((e # xs) @ ys) st w =
      andThen (secondPass_step C c nodeID idPrefix pn e st)
        (secondPass C c nodeID idPrefix pn (xs @ ys)) w"
    by simp
  also have "\<dots> = andThen (secondPass_step C c nodeID idPrefix pn e st)
        (\<lambda>st1. andThen (secondPass C c nodeID idPrefix pn xs st1)
                  (secondPass C c nodeID idPrefix pn ys)) w"
    by (simp add: andThen_def Cons.IH split: option.splits sum.splits prod.splits)
  also have "\<dots> = andThen (andThen (secondPass_step C c nodeID idPrefix pn e st)
                  (secondPass C c nodeID idPrefix pn xs)) (secondPass C c nodeID idPrefix pn ys) w"
    by (simp add: andThen_assoc)
  also have "andThen (secondPass_step C c nodeID idPrefix pn e st)
                  (secondPass C c nodeID idPrefix pn xs) =
             secondPass C c nodeID idPrefix pn (e # xs) st"
    by (rule ext) simp
  finally show ?case .
qed

lemma highWater_snoc:
  "highWater h pm (es @ [e]) =
     (case childAt pm (fst e) of
        None \<Rightarrow> highWater h pm es
      | Some q \<Rightarrow> max (num (mountIndex (h q))) (highWater h pm es))"
  by (induction es) (auto split: option.splits)

lemma highWater_nonneg: "0 \<le> highWater h pm es"
  by (induction es) (auto split: option.splits)

lemma secondPass_highWater:
  assumes "renderedChildren (heap w c) = Some pm"
    and "distinct (map fst pm)" and "distinct (childRefs pm)"
    and "distinct (map fst es)"
  shows "post (secondPass (leaf gp mk) c nodeID idPrefix False es (0, 0, None)) w
     (\<lambda>r w'. \<forall>st'. r = Inr st' \<longrightarrow>
         fst st' = highWater (heap w) pm es \<and>
         (\<forall>k. k \<notin> fst ` set es \<longrightarrow> renderedAt c k w' = childAt pm k) \<and>
         (\<forall>x. mountIndex (heap w' x) = mountIndex (heap w x) \<or>
              (\<exists>k \<in> fst ` set es. childAt pm k = Some x)) \<and>
         (\<forall>x. nodeCount (heap w' x) = nodeCount (heap w x) \<and>
              ctor (heap w' x) = ctor (heap w x) \<and>
              isComponent (heap w' x) = isComponent (heap w x)))"
proof -
  let ?I = "\<lambda>pre (st :: int \<times> int \<times> ref option) w'.
         fst st = highWater (heap w) pm pre \<and>
         (\<forall>k. k \<notin> fst ` set pre \<longrightarrow> renderedAt c k w' = childAt pm k) \<and>
         (\<forall>x. mountIndex (heap w' x) = mountIndex (heap w x) \<or>
              (\<exists>k \<in> fst ` set pre. childAt pm k = Some x)) \<and>
         (\<forall>x. nodeCount (heap w' x) = nodeCount (heap w x) \<and>
              ctor (heap w' x) = ctor (heap w x) \<and>
              isComponent (heap w' x) = isComponent (heap w x))"
  have "post (secondPass (leaf gp mk) c nodeID idPrefix False es (0, 0, None)) w
           (\<lambda>r w'. \<forall>st'. r = Inr st' \<longrightarrow> ?I ([] @ es) st' w')"
  proof (rule secondPass_invariant[where I = ?I])
    show "?I [] (0, 0, None) w" using assms(1) by (simp add: renderedAt_def)
  next
    fix pre' :: children and e :: "string \<times> ref option" and rest :: children
      and st1 :: "int \<times> int \<times> ref option" and w1 :: world
    assume split: "[] @ es = pre' @ e # rest" and inv: "?I pre' st1 w1"
    obtain name nx where e: "e = (name, nx)" by (cases e)
    obtain li ni lc where st1: "st1 = (li, ni, lc)" by (cases st1)
    from split e have "es = pre' @ (name, nx) # rest" by simp
    from childAt_split(1)[OF assms(4) this] have fresh: "name \<notin> fst ` set pre'" .
    from inv fresh have prev: "prevChildAt False c name w1 = childAt pm name"
      by (simp add: prevChildAt_simps)
    have mi: "mountIndex (heap w1 p) = mountIndex (heap w p)" if p: "childAt pm name = Some p" for p
    proof -
      from inv have "mountIndex (heap w1 p) = mountIndex (heap w p) \<or>
              (\<exists>k \<in> fst ` set pre'. childAt pm k = Some p)" by blast
      moreover have "\<not> (\<exists>k \<in> fst ` set pre'. childAt pm k = Some p)"
      proof
        assume "\<exists>k \<in> fst ` set pre'. childAt pm k = Some p"
        then obtain k where k: "k \<in> fst ` set pre'" "childAt pm k = Some p" by blast
        from childAt_inj[OF assms(3) assms(2) k(2) p] k(1) fresh show False by simp
      qed
      ultimately show ?thesis by blast
    qed
    have "post (secondPass_step (leaf gp mk) c nodeID idPrefix False (name, nx) (li, ni, lc)) w1
            (\<lambda>r w'. (((\<forall>x. mountIndex (heap w' x) = mountIndex (heap w1 x) \<or>
                  (prevChildAt False c name w1 = Some x \<and> mountIndex (heap w' x) = None)) \<and>
               (\<forall>k. k \<noteq> name \<longrightarrow> renderedAt c k w' = renderedAt c k w1)) \<and>
               (\<forall>x. nodeCount (heap w' x) = nodeCount (heap w1 x) \<and>
                  ctor (heap w' x) = ctor (heap w1 x) \<and>
                  isComponent (heap w' x) = isComponent (heap w1 x))) \<and>
               (\<forall>li' ni' lc'. r = Inr (li', ni', lc') \<longrightarrow>
                  li' = (case prevChildAt False c name w1 of
                           None \<Rightarrow> li
                         | Some p \<Rightarrow> max (num (mountIndex (heap w1 p))) li) \<and>
                  ni' = ni + (case mountedOf (heap w1) (prevChildAt False c name w1) nx of
                                None \<Rightarrow> 0
                              | Some m \<Rightarrow> num (nodeCount (heap w1 m)))))"
      by (intro post_conj step_mountIndex step_map_other step_statics step_result)
    then show "post (secondPass_step (leaf gp mk) c nodeID idPrefix False e st1) w1
             (\<lambda>r w'. \<forall>st'. r = Inr st' \<longrightarrow> ?I (pre' @ [e]) st' w')"
      unfolding e st1
    proof (rule post_mono)
      fix r :: "error + int \<times> int \<times> ref option" and w' :: world
      assume a: "(((\<forall>x. mountIndex (heap w' x) = mountIndex (heap w1 x) \<or>
                  (prevChildAt False c name w1 = Some x \<and> mountIndex (heap w' x) = None)) \<and>
               (\<forall>k. k \<noteq> name \<longrightarrow> renderedAt c k w' = renderedAt c k w1)) \<and>
               (\<forall>x. nodeCount (heap w' x) = nodeCount (heap w1 x) \<and>
                  ctor (heap w' x) = ctor (heap w1 x) \<and>
                  isComponent (heap w' x) = isComponent (heap w1 x))) \<and>
               (\<forall>li' ni' lc'. r = Inr (li', ni', lc') \<longrightarrow>
                  li' = (case prevChildAt False c name w1 of
                           None \<Rightarrow> li
                         | Some p \<Rightarrow> max (num (mountIndex (heap w1 p))) li) \<and>
                  ni' = ni + (case mountedOf (heap w1) (prevChildAt False c name w1) nx of
                                None \<Rightarrow> 0
                              | Some m \<Rightarrow> num (nodeCount (heap w1 m))))"
      from inv st1 have li: "li = highWater (heap w) pm pre'" by simp
      have hw: "fst st' = highWater (heap w) pm (pre' @ [(name, nx)])" if "r = Inr st'"
        for st' :: "int \<times> int \<times> ref option"
      proof -
        obtain li' ni' lc' where st': "st' = (li', ni', lc')" by (cases st')
        with a that have "li' = (case prevChildAt False c name w1 of
                           None \<Rightarrow> li
                         | Some p \<Rightarrow> max (num (mountIndex (heap w1 p))) li)" by blast
        then show ?thesis
          unfolding st' prev highWater_snoc li using mi
          by (cases "childAt pm name") simp_all
      qed
      have o: "\<forall>k. k \<notin> fst ` set (pre' @ [(name, nx)]) \<longrightarrow> renderedAt c k w' = childAt pm k"
        using a inv by simp
      have m: "mountIndex (heap w' x) = mountIndex (heap w x) \<or>
              (\<exists>k \<in> fst ` set (pre' @ [(name, nx)]). childAt pm k = Some x)" for x
      proof -
        from a have "mountIndex (heap w' x) = mountIndex (heap w1 x) \<or>
                  prevChildAt False c name w1 = Some x" by blast
        moreover from inv have "mountIndex (heap w1 x) = mountIndex (heap w x) \<or>
              (\<exists>k \<in> fst ` set pre'. childAt pm k = Some x)" by blast
        ultimately show ?thesis unfolding prev by auto
      qed
      have s: "\<forall>x. nodeCount (heap w' x) = nodeCount (heap w x) \<and>
              ctor (heap w' x) = ctor (heap w x) \<and>
              isComponent (heap w' x) = isComponent (heap w x)"
        using a inv by simp
      from hw o m s show "\<forall>st'. r = Inr st' \<longrightarrow> ?I (pre' @ [(name, nx)]) st' w'"
        by blast
    qed
  qed
  then show ?thesis
    by (rule post_mono) simp
qed

lemma step_reuse_outcome:
  assumes "prevChildAt pn c name w = Some p" and "ctor (heap w p) = ctor (heap w n)"
  shows
    "post (secondPass_step (leaf gp mk) c nodeID idPrefix pn (name, Some n) (li, ni, lc)) w
       (\<lambda>r w'. \<forall>st'. r = Inr st' \<longrightarrow>
          updateQueue w' = updateQueue w @
            (if num (mountIndex (heap w p)) < li
             then [moveRecord nodeID (nodeCount (heap w p)) (mountIndex (heap w p)) (Some ni)]
             else []))"
  using assms
  by (simp add: post_step_leaf Let_def shouldUpdateChild_def less_max_iff_disj)

text \<open>
  C1.  Take a second pass (leaf children) over next children under distinct keys, from a
  world in which the component's previous children lie under distinct keys and are
  distinct objects, and an entry \<open>(name, n)\<close> of the next children whose key holds a
  previous child \<open>p\<close> that \<open>shouldUpdateChild\<close> accepts.  When the pass returns normally,
  it is the run over the entries before \<open>name\<close>, the iteration for \<open>name\<close>, and the run
  over the remaining entries.  At the iteration for \<open>name\<close>, \<open>lastIndex\<close> is the high-water
  mark: the largest position, in the starting world, of the previous children under the
  keys processed before (and zero).  The iteration appends one \<open>MOVE_EXISTING\<close> record
  (for \<open>p\<close>'s node count, from \<open>p\<close>'s position in the starting world, to the current
  \<open>nextIndex\<close>) if that position is strictly less than the high-water mark, and appends
  nothing otherwise.  In particular, for previous keys \<open>a, b, c\<close> of one node each and
  next keys \<open>c, a, b\<close>, \<open>updateChildren\<close> hands over exactly two records: the move of \<open>a\<close>
  from \<open>0\<close> to \<open>1\<close> and the move of \<open>b\<close> from \<open>1\<close> to \<open>2\<close>.
\<close>

theorem move_iff_below_high_water:
  assumes "renderedChildren (heap w c) = Some pm"
    and "distinct (map fst pm)" and "distinct (childRefs pm)"
    and "distinct (map fst (pre @ (name, Some n) # rest))"
    and "childAt pm name = Some p"
    and "shouldUpdateChild (heap w) (Some p) (Some n)"
    and "secondPass (leaf gp mk) c nodeID idPrefix False (pre @ (name, Some n) # rest)
           (0, 0, None) w = Some (Inr stf, w3)"
  shows
    "(\<exists>li ni lc w1 st2 w2.
        secondPass (leaf gp mk) c nodeID idPrefix False pre (0, 0, None) w =
          Some (Inr (li, ni, lc), w1) \<and>
        secondPass_step (leaf gp mk) c nodeID idPrefix False (name, Some n) (li, ni, lc) w1 =
          Some (Inr st2, w2) \<and>
        secondPass (leaf gp mk) c nodeID idPrefix False rest st2 w2 = Some (Inr stf, w3) \<and>
        li = highWater (heap w) pm pre \<and>
        updateQueue w2 = updateQueue w1 @
          (if num (mountIndex (heap w p)) < highWater (heap w) pm pre
           then [moveRecord nodeID (nodeCount (heap w p)) (mountIndex (heap w p)) (Some ni)]
           else [])) \<and>
     map_option (\<lambda>(r, w). (r, applied w))
       (updateChildren (leaf parentOfID markupOf) 0 ''.0.'' nextCAB (emptyWorld heapABC)) =
     Some (Inr (),
       [([moveRecord ''.0'' (Some 1) (Some 0) (Some 1),
          moveRecord ''.0'' (Some 1) (Some 1) (Some 2)], [])])"
proof
  let ?C = "leaf gp mk"
  from assms(7) have "andThen (secondPass ?C c nodeID idPrefix False pre (0, 0, None))
      (secondPass ?C c nodeID idPrefix False ((name, Some n) # rest)) w = Some (Inr stf, w3)"
    by (simp add: secondPass_append)
  from andThen_InrD[OF this] obtain st1 w1 where
    sp: "secondPass ?C c nodeID idPrefix False pre (0, 0, None) w = Some (Inr st1, w1)" and
    r1: "secondPass ?C c nodeID idPrefix False ((name, Some n) # rest) st1 w1 = Some (Inr stf, w3)"
    by blast
  from r1 have "andThen (secondPass_step ?C c nodeID idPrefix False (name, Some n) st1)
      (secondPass ?C c nodeID idPrefix False rest) w1 = Some (Inr stf, w3)"
    by simp
  from andThen_InrD[OF this] obtain st2 w2 where
    stp: "secondPass_step ?C c nodeID idPrefix False (name, Some n) st1 w1 = Some (Inr st2, w2)" and
    r2: "secondPass ?C c nodeID idPrefix False rest st2 w2 = Some (Inr stf, w3)"
    by blast
  obtain li ni lc where st1: "st1 = (li, ni, lc)" by (cases st1)
  from assms(4) have dpre: "distinct (map fst pre)" and fresh: "name \<notin> fst ` set pre"
    by auto
  from postD[OF secondPass_highWater[OF assms(1,2,3) dpre] sp]
  have li: "li = highWater (heap w) pm pre"
    and mp: "\<forall>k. k \<notin> fst ` set pre \<longrightarrow> renderedAt c k w1 = childAt pm k"
    and mi: "\<forall>x. mountIndex (heap w1 x) = mountIndex (heap w x) \<or>
              (\<exists>k \<in> fst ` set pre. childAt pm k = Some x)"
    and sx: "\<forall>x. nodeCount (heap w1 x) = nodeCount (heap w x) \<and>
              ctor (heap w1 x) = ctor (heap w x) \<and>
              isComponent (heap w1 x) = isComponent (heap w x)"
    unfolding st1 by simp_all
  from mp fresh assms(5) have prev: "prevChildAt False c name w1 = Some p"
    by (simp add: prevChildAt_simps)
  have "\<not> (\<exists>k \<in> fst ` set pre. childAt pm k = Some p)"
  proof
    assume "\<exists>k \<in> fst ` set pre. childAt pm k = Some p"
    then obtain k where k: "k \<in> fst ` set pre" "childAt pm k = Some p" by blast
    from childAt_inj[OF assms(3) assms(2) k(2) assms(5)] k(1) fresh show False by simp
  qed
  with mi have mip: "mountIndex (heap w1 p) = mountIndex (heap w p)" by blast
  from assms(6) sx have ct: "ctor (heap w1 p) = ctor (heap w1 n)"
    by (simp add: shouldUpdateChild_def)
  from postD[OF step_reuse_outcome[OF prev ct] stp[unfolded st1]]
  have "updateQueue w2 = updateQueue w1 @
          (if num (mountIndex (heap w1 p)) < li
           then [moveRecord nodeID (nodeCount (heap w1 p)) (mountIndex (heap w1 p)) (Some ni)]
           else [])"
    by blast
  moreover from sx have "nodeCount (heap w1 p) = nodeCount (heap w p)" by blast
  ultimately have q: "updateQueue w2 = updateQueue w1 @
          (if num (mountIndex (heap w p)) < highWater (heap w) pm pre
           then [moveRecord nodeID (nodeCount (heap w p)) (mountIndex (heap w p)) (Some ni)]
           else [])"
    using mip li by simp
  from sp stp r2 li q show "\<exists>li ni lc w1 st2 w2.
        secondPass (leaf gp mk) c nodeID idPrefix False pre (0, 0, None) w =
          Some (Inr (li, ni, lc), w1) \<and>
        secondPass_step (leaf gp mk) c nodeID idPrefix False (name, Some n) (li, ni, lc) w1 =
          Some (Inr st2, w2) \<and>
        secondPass (leaf gp mk) c nodeID idPrefix False rest st2 w2 = Some (Inr stf, w3) \<and>
        li = highWater (heap w) pm pre \<and>
        updateQueue w2 = updateQueue w1 @
          (if num (mountIndex (heap w p)) < highWater (heap w) pm pre
           then [moveRecord nodeID (nodeCount (heap w p)) (mountIndex (heap w p)) (Some ni)]
           else [])"
    unfolding st1 by blast
next
  show "map_option (\<lambda>(r, w). (r, applied w))
       (updateChildren (leaf parentOfID markupOf) 0 ''.0.'' nextCAB (emptyWorld heapABC)) =
     Some (Inr (),
       [([moveRecord ''.0'' (Some 1) (Some 0) (Some 1),
          moveRecord ''.0'' (Some 1) (Some 1) (Some 2)], [])])"
    by code_simp
qed

theorem move_iff_below_high_water_witness:
  "renderedChildren
     (heap (emptyWorld (firstPass [(''a'', Some 1), (''b'', Some 2), (''c'', Some 3)] 0 heapABC)) 0) =
     Some [(''a'', Some 1), (''b'', Some 2), (''c'', Some 3)] \<and>
   shouldUpdateChild
     (heap (emptyWorld (firstPass [(''a'', Some 1), (''b'', Some 2), (''c'', Some 3)] 0 heapABC)))
     (Some 1) (Some 4) \<and>
   (\<exists>li ni lc w1 st2 w2 stf w3.
      secondPass (leaf parentOfID markupOf) 0 ''.0'' ''.0.'' False [(''c'', Some 6)] (0, 0, None)
        (emptyWorld (firstPass [(''a'', Some 1), (''b'', Some 2), (''c'', Some 3)] 0 heapABC)) =
        Some (Inr (li, ni, lc), w1) \<and>
      secondPass_step (leaf parentOfID markupOf) 0 ''.0'' ''.0.'' False (''a'', Some 4)
        (li, ni, lc) w1 = Some (Inr st2, w2) \<and>
      secondPass (leaf parentOfID markupOf) 0 ''.0'' ''.0.'' False [(''b'', Some 5)] st2 w2 =
        Some (Inr stf, w3) \<and>
      li = 2 \<and>
      updateQueue w2 = updateQueue w1 @ [moveRecord ''.0'' (Some 1) (Some 0) (Some ni)])"
proof -
  let ?pm = "[(''a'', Some 1), (''b'', Some 2), (''c'', Some (3 :: ref))]"
  let ?w = "emptyWorld (firstPass ?pm 0 heapABC)"
  let ?C = "leaf parentOfID markupOf"
  have "case secondPass ?C 0 ''.0'' ''.0.'' False
               ([(''c'', Some 6)] @ (''a'', Some 4) # [(''b'', Some 5)]) (0, 0, None) ?w of
          None \<Rightarrow> False | Some (Inl e, w') \<Rightarrow> False | Some (Inr st, w') \<Rightarrow> True"
    by code_simp
  then obtain stf w3 where
    run: "secondPass ?C 0 ''.0'' ''.0.'' False
               ([(''c'', Some 6)] @ (''a'', Some 4) # [(''b'', Some 5)]) (0, 0, None) ?w =
          Some (Inr stf, w3)"
    by (rule outcome_returnsE)
  have h1: "renderedChildren (heap ?w 0) = Some ?pm"
    by (simp add: emptyWorld_def firstPass_fields heapABC_def fresh_def)
  have h2: "distinct (map fst ?pm)" "distinct (childRefs ?pm)"
    "distinct (map fst ([(''c'', Some (6 :: ref))] @ (''a'', Some 4) # [(''b'', Some 5)]))"
    by simp_all
  have h3: "childAt ?pm ''a'' = Some 1" "childAt ?pm ''c'' = Some 3"
    by (simp_all add: childAt_def)
  have h4: "shouldUpdateChild (heap ?w) (Some 1) (Some 4)"
    by (simp add: shouldUpdateChild_def emptyWorld_def firstPass_fields heapABC_def fresh_def)
  have pos: "map (\<lambda>r. mountIndex (firstPass ?pm 0 heapABC r)) (childRefs ?pm) =
      map Some (prefixSums 0 (map (\<lambda>r. num (nodeCount (heapABC r))) (childRefs ?pm)))"
    by (rule firstPass_prefixSums) simp
  then have mi: "mountIndex (heap ?w 1) = Some 0" "mountIndex (heap ?w 3) = Some 2"
    by (simp_all add: emptyWorld_def heapABC_def fresh_def num_def)
  have nc: "nodeCount (heap ?w 1) = Some 1"
    by (simp add: emptyWorld_def firstPass_fields heapABC_def fresh_def)
  have hw: "highWater (heap ?w) ?pm [(''c'', Some 6)] = 2"
    using h3(2) mi(2) by (simp add: num_def)
  from move_iff_below_high_water[OF h1 h2(1) h2(2) h2(3) h3(1) h4 run]
  have "\<exists>li ni lc w1 st2 w2.
        secondPass ?C 0 ''.0'' ''.0.'' False [(''c'', Some 6)] (0, 0, None) ?w =
          Some (Inr (li, ni, lc), w1) \<and>
        secondPass_step ?C 0 ''.0'' ''.0.'' False (''a'', Some 4) (li, ni, lc) w1 =
          Some (Inr st2, w2) \<and>
        secondPass ?C 0 ''.0'' ''.0.'' False [(''b'', Some 5)] st2 w2 = Some (Inr stf, w3) \<and>
        li = highWater (heap ?w) ?pm [(''c'', Some 6)] \<and>
        updateQueue w2 = updateQueue w1 @
          (if num (mountIndex (heap ?w 1)) < highWater (heap ?w) ?pm [(''c'', Some 6)]
           then [moveRecord ''.0'' (nodeCount (heap ?w 1)) (mountIndex (heap ?w 1)) (Some ni)]
           else [])"
    by blast
  then have "\<exists>li ni lc w1 st2 w2.
        secondPass ?C 0 ''.0'' ''.0.'' False [(''c'', Some 6)] (0, 0, None) ?w =
          Some (Inr (li, ni, lc), w1) \<and>
        secondPass_step ?C 0 ''.0'' ''.0.'' False (''a'', Some 4) (li, ni, lc) w1 =
          Some (Inr st2, w2) \<and>
        secondPass ?C 0 ''.0'' ''.0.'' False [(''b'', Some 5)] st2 w2 = Some (Inr stf, w3) \<and>
        li = 2 \<and>
        updateQueue w2 = updateQueue w1 @ [moveRecord ''.0'' (Some 1) (Some 0) (Some ni)]"
    unfolding hw mi nc by (simp add: num_def)
  with h1 h4 show ?thesis by blast
qed

section \<open>Reused children\<close>

lemma step_reuse_facts:
  assumes "prevChildAt pn c name w = Some p" and "ctor (heap w p) = ctor (heap w n)"
  shows
    "post (secondPass_step (leaf gp mk) c nodeID idPrefix pn (name, Some n) (li, ni, lc)) w
       (\<lambda>r w'. \<forall>st'. r = Inr st' \<longrightarrow>
          calls w' = calls w @ [ReceiveProps p (props (heap w n))] \<and>
          renderedChildren (heap w' c) = renderedChildren (heap w c))"
  using assms
  by (simp add: post_step_leaf Let_def shouldUpdateChild_def)

lemma unmount_leaf_map:
  "post (priv_unmountChildByName (leaf gp mk) c nodeID p name) w
     (\<lambda>r w'. (\<forall>k. k \<noteq> name \<longrightarrow> renderedAt c k w' = renderedAt c k w) \<and>
              (renderedAt c name w' = renderedAt c name w \<or> renderedAt c name w' = None))"
  by (simp add: post_unmount_leaf Let_def renderedAt_def[of c _ w] split: option.splits)

lemma secondPass_reused:
  assumes pm: "renderedChildren (heap w c) = Some pm"
    and dk: "distinct (map fst pm)" and dr: "distinct (childRefs pm)"
    and dn: "distinct (map fst nm)"
    and kp: "childAt pm k = Some p" and kn: "childAt nm k = Some n"
    and su: "shouldUpdateChild (heap w) (Some p) (Some n)"
    and pn: "p \<notin> set (childRefs nm)"
  shows "post (secondPass (leaf gp mk) c nodeID idPrefix False nm st) w
     (\<lambda>r w'. \<forall>st'. r = Inr st' \<longrightarrow>
         renderedAt c k w' = Some p \<and>
         (\<forall>j. j \<noteq> k \<longrightarrow> renderedAt c j w' \<noteq> Some p) \<and>
         (\<exists>x. filter (\<lambda>a. target a = p) (calls w') =
               filter (\<lambda>a. target a = p) (calls w) @ [ReceiveProps p x]))"
proof -
  let ?on = "\<lambda>w. filter (\<lambda>a. target a = p) (calls w)"
  let ?I = "\<lambda>pre (st :: int \<times> int \<times> ref option) w'.
         renderedAt c k w' = Some p \<and>
         (\<forall>j. j \<noteq> k \<longrightarrow> renderedAt c j w' \<noteq> Some p) \<and>
         (\<forall>j. j \<notin> fst ` set pre \<longrightarrow> renderedAt c j w' = childAt pm j) \<and>
         (\<forall>x. ctor (heap w' x) = ctor (heap w x)) \<and>
         (if k \<in> fst ` set pre then \<exists>x. ?on w' = ?on w @ [ReceiveProps p x]
          else ?on w' = ?on w)"
  have init: "?I [] st w"
  proof -
    have "renderedAt c j w \<noteq> Some p" if "j \<noteq> k" for j
    proof
      assume "renderedAt c j w = Some p"
      with pm have "childAt pm j = Some p" by (simp add: renderedAt_def)
      from childAt_inj[OF dr dk this kp] that show False by simp
    qed
    with pm kp show ?thesis by (simp add: renderedAt_def)
  qed
  have "post (secondPass (leaf gp mk) c nodeID idPrefix False nm st) w
           (\<lambda>r w'. \<forall>st'. r = Inr st' \<longrightarrow> ?I ([] @ nm) st' w')"
  proof (rule secondPass_invariant[where I = ?I, OF init])
    fix pre' :: children and e :: "string \<times> ref option" and rest :: children
      and st1 :: "int \<times> int \<times> ref option" and w1 :: world
    assume split: "[] @ nm = pre' @ e # rest" and inv: "?I pre' st1 w1"
    obtain name nx where e: "e = (name, nx)" by (cases e)
    obtain li ni lc where st1: "st1 = (li, ni, lc)" by (cases st1)
    from split e have nm: "nm = pre' @ (name, nx) # rest" by simp
    from childAt_split[OF dn nm]
    have fresh: "name \<notin> fst ` set pre'" and at: "childAt nm name = nx" .
    have nxp: "nx \<noteq> Some p"
    proof
      assume "nx = Some p"
      with nm have "(name, Some p) \<in> set nm" by simp
      from entry_mem[OF this] pn show False by simp
    qed
    from inv fresh have prev: "prevChildAt False c name w1 = childAt pm name"
      by (simp add: prevChildAt_simps)
    have common: "post (secondPass_step (leaf gp mk) c nodeID idPrefix False (name, nx) (li, ni, lc)) w1
            (\<lambda>r w'. ((\<forall>j. j \<noteq> name \<longrightarrow> renderedAt c j w' = renderedAt c j w1) \<and>
               (renderedAt c name w' = renderedAt c name w1 \<or> renderedAt c name w' = nx \<or>
                renderedAt c name w' = None)) \<and>
               (\<forall>x. nodeCount (heap w' x) = nodeCount (heap w1 x) \<and>
                  ctor (heap w' x) = ctor (heap w1 x) \<and>
                  isComponent (heap w' x) = isComponent (heap w1 x)))"
      by (intro post_conj step_map_other step_map_at step_statics)
    show "post (secondPass_step (leaf gp mk) c nodeID idPrefix False e st1) w1
             (\<lambda>r w'. \<forall>st'. r = Inr st' \<longrightarrow> ?I (pre' @ [e]) st' w')"
    proof (cases "name = k")
      case True
      with at kn have nx: "nx = Some n" by simp
      from prev True kp have prevp: "prevChildAt False c name w1 = Some p" by simp
      from su inv have ct: "ctor (heap w1 p) = ctor (heap w1 n)"
        by (simp add: shouldUpdateChild_def)
      have "post (secondPass_step (leaf gp mk) c nodeID idPrefix False (name, Some n) (li, ni, lc)) w1
            (\<lambda>r w'. (((\<forall>j. j \<noteq> name \<longrightarrow> renderedAt c j w' = renderedAt c j w1) \<and>
               (renderedAt c name w' = renderedAt c name w1 \<or> renderedAt c name w' = Some n \<or>
                renderedAt c name w' = None)) \<and>
               (\<forall>x. nodeCount (heap w' x) = nodeCount (heap w1 x) \<and>
                  ctor (heap w' x) = ctor (heap w1 x) \<and>
                  isComponent (heap w' x) = isComponent (heap w1 x))) \<and>
               (\<forall>st'. r = Inr st' \<longrightarrow>
                  calls w' = calls w1 @ [ReceiveProps p (props (heap w1 n))] \<and>
                  renderedChildren (heap w' c) = renderedChildren (heap w1 c)))"
        using common[unfolded nx] step_reuse_facts[OF prevp ct] by (rule post_conj)
      then show ?thesis
        unfolding e st1 nx
      proof (rule post_mono)
        fix r :: "error + int \<times> int \<times> ref option" and w' :: world
        assume a: "(((\<forall>j. j \<noteq> name \<longrightarrow> renderedAt c j w' = renderedAt c j w1) \<and>
               (renderedAt c name w' = renderedAt c name w1 \<or> renderedAt c name w' = Some n \<or>
                renderedAt c name w' = None)) \<and>
               (\<forall>x. nodeCount (heap w' x) = nodeCount (heap w1 x) \<and>
                  ctor (heap w' x) = ctor (heap w1 x) \<and>
                  isComponent (heap w' x) = isComponent (heap w1 x))) \<and>
               (\<forall>st'. r = Inr st' \<longrightarrow>
                  calls w' = calls w1 @ [ReceiveProps p (props (heap w1 n))] \<and>
                  renderedChildren (heap w' c) = renderedChildren (heap w1 c))"
        show "\<forall>st'. r = Inr st' \<longrightarrow> ?I (pre' @ [(name, Some n)]) st' w'"
        proof (intro allI impI)
          fix st' assume r: "r = Inr st'"
          with a have cl: "calls w' = calls w1 @ [ReceiveProps p (props (heap w1 n))]"
            and rc: "renderedChildren (heap w' c) = renderedChildren (heap w1 c)" by blast+
          from rc have same: "renderedAt c j w' = renderedAt c j w1" for j
            by (simp add: renderedAt_def)
          from inv fresh True have "?on w1 = ?on w" by simp
          with cl have "?on w' = ?on w @ [ReceiveProps p (props (heap w1 n))]" by simp
          then have on: "\<exists>x. ?on w' = ?on w @ [ReceiveProps p x]" by blast
          from a inv have ctor: "\<forall>x. ctor (heap w' x) = ctor (heap w x)" by simp
          from inv same have
            "\<forall>j. j \<notin> fst ` set (pre' @ [(name, Some n)]) \<longrightarrow> renderedAt c j w' = childAt pm j"
            by simp
          with inv same on ctor True show "?I (pre' @ [(name, Some n)]) st' w'"
            by simp
        qed
      qed
    next
      case False
      from inv False have "renderedAt c name w1 \<noteq> Some p" by simp
      then have prevp: "prevChildAt False c name w1 \<noteq> Some p" by (simp add: prevChildAt_simps)
      have "post (secondPass_step (leaf gp mk) c nodeID idPrefix False (name, nx) (li, ni, lc)) w1
            (\<lambda>r w'. (((\<forall>j. j \<noteq> name \<longrightarrow> renderedAt c j w' = renderedAt c j w1) \<and>
               (renderedAt c name w' = renderedAt c name w1 \<or> renderedAt c name w' = nx \<or>
                renderedAt c name w' = None)) \<and>
               (\<forall>x. nodeCount (heap w' x) = nodeCount (heap w1 x) \<and>
                  ctor (heap w' x) = ctor (heap w1 x) \<and>
                  isComponent (heap w' x) = isComponent (heap w1 x))) \<and>
               ?on w' = ?on w1)"
        using common step_calls_other[OF prevp nxp] by (rule post_conj)
      then show ?thesis
        unfolding e st1
      proof (rule post_mono)
        fix r :: "error + int \<times> int \<times> ref option" and w' :: world
        assume a: "(((\<forall>j. j \<noteq> name \<longrightarrow> renderedAt c j w' = renderedAt c j w1) \<and>
               (renderedAt c name w' = renderedAt c name w1 \<or> renderedAt c name w' = nx \<or>
                renderedAt c name w' = None)) \<and>
               (\<forall>x. nodeCount (heap w' x) = nodeCount (heap w1 x) \<and>
                  ctor (heap w' x) = ctor (heap w1 x) \<and>
                  isComponent (heap w' x) = isComponent (heap w1 x))) \<and>
               ?on w' = ?on w1"
        have k1: "renderedAt c k w' = Some p" using a inv False by simp
        have k2: "renderedAt c j w' \<noteq> Some p" if "j \<noteq> k" for j
        proof (cases "j = name")
          case True
          with a nxp \<open>renderedAt c name w1 \<noteq> Some p\<close> show ?thesis by auto
        next
          case False
          with a inv that show ?thesis by simp
        qed
        have k3: "\<forall>j. j \<notin> fst ` set (pre' @ [(name, nx)]) \<longrightarrow> renderedAt c j w' = childAt pm j"
          using a inv by simp
        have k4: "\<forall>x. ctor (heap w' x) = ctor (heap w x)" using a inv by simp
        have k5: "if k \<in> fst ` set (pre' @ [(name, nx)])
              then \<exists>x. ?on w' = ?on w @ [ReceiveProps p x] else ?on w' = ?on w"
          using a inv False by auto
        from k1 k2 k3 k4 k5 show "\<forall>st'. r = Inr st' \<longrightarrow> ?I (pre' @ [(name, nx)]) st' w'"
          by blast
      qed
    qed
  qed
  moreover have "k \<in> fst ` set nm"
  proof (rule ccontr)
    assume "k \<notin> fst ` set nm"
    then have "map_of nm k = None" by (simp add: map_of_eq_None_iff)
    with kn show False by (simp add: childAt_def)
  qed
  ultimately show ?thesis
    by (auto intro: post_mono)
qed

lemma thirdPass_reused:
  assumes "renderedAt c k w = Some p" and "\<forall>j. j \<noteq> k \<longrightarrow> renderedAt c j w \<noteq> Some p"
    and "childAt nm k = Some n"
  shows "post (thirdPass (leaf gp mk) c nodeID (Some nm) ks) w
     (\<lambda>r w'. \<forall>u. r = Inr u \<longrightarrow>
        renderedAt c k w' = Some p \<and>
        filter (\<lambda>a. target a = p) (calls w') = filter (\<lambda>a. target a = p) (calls w))"
proof -
  let ?on = "\<lambda>w. filter (\<lambda>a. target a = p) (calls w)"
  let ?I = "\<lambda>w'. renderedAt c k w' = Some p \<and> (\<forall>j. j \<noteq> k \<longrightarrow> renderedAt c j w' \<noteq> Some p) \<and>
                 ?on w' = ?on w"
  have "post (thirdPass (leaf gp mk) c nodeID (Some nm) ks) w (\<lambda>r w'. \<forall>u. r = Inr u \<longrightarrow> ?I w')"
  proof (rule thirdPass_invariant[where I = ?I])
    show "?I w" using assms by simp
  next
    fix name q and w1 :: world
    assume inv: "?I w1" and at: "renderedAt c name w1 = Some q"
      and gone: "\<not> (case Some nm of None \<Rightarrow> False | Some nm \<Rightarrow> childAt nm name \<noteq> None)"
    from gone assms(3) have nk: "name \<noteq> k" by auto
    with inv at have qp: "q \<noteq> p" by auto
    have "post (priv_unmountChildByName (leaf gp mk) c nodeID q name) w1
       (\<lambda>r w'. ((\<forall>j. j \<noteq> name \<longrightarrow> renderedAt c j w' = renderedAt c j w1) \<and>
              (renderedAt c name w' = renderedAt c name w1 \<or> renderedAt c name w' = None)) \<and>
              (\<forall>j. renderedAt c j w' = renderedAt c j w1 \<or> renderedAt c j w' = None) \<and>
              (\<forall>x. nodeCount (heap w' x) = nodeCount (heap w1 x) \<and>
                   rootNodeID (heap w' x) = rootNodeID (heap w1 x) \<and>
                   ctor (heap w' x) = ctor (heap w1 x)) \<and>
              (\<forall>x. x \<noteq> q \<longrightarrow> parentComponent (heap w' x) = parentComponent (heap w1 x) \<and>
                               mountIndex (heap w' x) = mountIndex (heap w1 x)) \<and>
              (\<forall>x. x \<noteq> q \<longrightarrow>
                   filter (\<lambda>a. target a = x) (calls w') = filter (\<lambda>a. target a = x) (calls w1)))"
      by (rule post_conj[OF unmount_leaf_map unmount_leaf_facts])
    then show "post (priv_unmountChildByName (leaf gp mk) c nodeID q name) w1
        (\<lambda>r w'. \<forall>u. r = Inr u \<longrightarrow> ?I w')"
    proof (rule post_mono)
      fix r :: "error + unit" and w' :: world
      assume a: "((\<forall>j. j \<noteq> name \<longrightarrow> renderedAt c j w' = renderedAt c j w1) \<and>
              (renderedAt c name w' = renderedAt c name w1 \<or> renderedAt c name w' = None)) \<and>
              (\<forall>j. renderedAt c j w' = renderedAt c j w1 \<or> renderedAt c j w' = None) \<and>
              (\<forall>x. nodeCount (heap w' x) = nodeCount (heap w1 x) \<and>
                   rootNodeID (heap w' x) = rootNodeID (heap w1 x) \<and>
                   ctor (heap w' x) = ctor (heap w1 x)) \<and>
              (\<forall>x. x \<noteq> q \<longrightarrow> parentComponent (heap w' x) = parentComponent (heap w1 x) \<and>
                               mountIndex (heap w' x) = mountIndex (heap w1 x)) \<and>
              (\<forall>x. x \<noteq> q \<longrightarrow>
                   filter (\<lambda>a. target a = x) (calls w') = filter (\<lambda>a. target a = x) (calls w1))"
      note a1 = a[THEN conjunct1, THEN conjunct1]
      note a3 = a[THEN conjunct2, THEN conjunct1]
      note a6 = a[THEN conjunct2, THEN conjunct2, THEN conjunct2, THEN conjunct2]
      note i1 = inv[THEN conjunct1]
      note i2 = inv[THEN conjunct2, THEN conjunct1]
      note i3 = inv[THEN conjunct2, THEN conjunct2]
      from nk have kn: "k \<noteq> name" by simp
      from a1[rule_format, OF kn] i1 have k1: "renderedAt c k w' = Some p" by simp
      have k2: "renderedAt c j w' \<noteq> Some p" if "j \<noteq> k" for j
        using a3[rule_format, of j] i2[rule_format, OF that] by auto
      from qp have pq: "p \<noteq> q" by simp
      from a6[rule_format, OF pq] i3 have k3: "?on w' = ?on w" by simp
      from k1 k2 k3 show "\<forall>u. r = Inr u \<longrightarrow> ?I w'" by blast
    qed
  qed
  then show ?thesis by (rule post_mono) simp
qed

lemma rootReplacement_reuse:
  assumes "renderedChildren (heap w c) = Some pm" and "childAt pm [] = Some p"
    and "childAt nm [] = Some n" and "shouldUpdateChild (heap w) (Some p) (Some n)"
    and "rootReplacement (leaf gp mk) c (Some nm) w = Some (Inr u, w')"
  shows "w' = logCall (ReceiveProps p (props (heap w n)))
               (upd p (\<lambda>x. x\<lparr>props := props (heap w n)\<rparr>) w)"
  using assms
  by (simp add: rootReplacement_def Let_def leaf_receiveProps_def ok_def throw_def
      split: if_splits)

text \<open>
  C9.  Let a component's previous children lie under distinct keys and be distinct
  objects, let the next children lie under distinct keys, and let a key \<open>k\<close> hold the
  previous child \<open>p\<close> and a next child that \<open>shouldUpdateChild\<close> accepts for \<open>p\<close>; let \<open>p\<close>
  not be passed again as one of the next children (and, when the node identifier resolves
  to the empty string, let \<open>k\<close> be the empty key, the only one that case looks at).  When
  \<open>updateChildren\<close> (leaf children) returns normally, the rendered-children map still
  holds \<open>p\<close> under \<open>k\<close>, and the capabilities invoked on \<open>p\<close> during the call are exactly
  one \<open>receiveProps\<close>: no \<open>unmountComponent\<close> and no \<open>mountComponent\<close>.
\<close>

theorem reused_child_identity:
  assumes "renderedChildren (heap w c) = Some pm"
    and "distinct (map fst pm)" and "distinct (childRefs pm)" and "distinct (map fst nm)"
    and "childAt pm k = Some p" and "childAt nm k = Some n"
    and "shouldUpdateChild (heap w) (Some p) (Some n)"
    and "p \<notin> set (childRefs nm)"
    and "resolveNodeID (leaf gp mk) c idPrefix w = [] \<longrightarrow> k = []"
    and "updateChildren (leaf gp mk) c idPrefix (Some nm) w = Some (Inr u, w')"
  shows "renderedAt c k w' = Some p \<and>
         (\<exists>x. filter (\<lambda>a. target a = p) (calls w') =
               filter (\<lambda>a. target a = p) (calls w) @ [ReceiveProps p x])"
proof -
  let ?C = "leaf gp mk"
  let ?on = "\<lambda>w. filter (\<lambda>a. target a = p) (calls w)"
  let ?nodeID = "resolveNodeID ?C c idPrefix (entered w)"
  have he: "heap (entered w) = heap w" "calls (entered w) = calls w"
    by (simp_all add: entered_def)
  then have rn: "?nodeID = resolveNodeID ?C c idPrefix w"
    by (simp add: resolveNodeID_def)
  from depthGuard_heap[OF assms(10)[unfolded updateChildren_def]] obtain w5 where
    b: "priv_updateChildren ?C c idPrefix (Some nm) (entered w) = Some (Inr (), w5)" and
    h: "heap w' = heap w5" and cl: "calls w' = calls w5"
    by blast
  from h have ra: "renderedAt c k w' = renderedAt c k w5" by (simp add: renderedAt_def)
  have "renderedAt c k w5 = Some p \<and> (\<exists>x. ?on w5 = ?on w @ [ReceiveProps p x])"
  proof (cases "?nodeID = []")
    case True
    with rn assms(9) have k: "k = []" by simp
    from b True have "rootReplacement ?C c (Some nm) (entered w) = Some (Inr (), w5)"
      by (simp add: priv_updateChildren_def Let_def)
    from rootReplacement_reuse[OF _ _ _ _ this, of pm p n] assms(1,5,6,7) he k
    have "w5 = logCall (ReceiveProps p (props (heap w n)))
               (upd p (\<lambda>x. x\<lparr>props := props (heap w n)\<rparr>) (entered w))"
      by simp
    then have "renderedAt c k w5 = renderedAt c k w"
      and "?on w5 = ?on w @ [ReceiveProps p (props (heap w n))]"
      using he by (simp_all add: renderedAt_def)
    with assms(1,5) show ?thesis by (auto simp: renderedAt_def)
  next
    case False
    let ?w0 = "(entered w)\<lparr>heap := firstPass pm 0 (heap w)\<rparr>"
    from keyedDiff_InrD[OF priv_updateChildren_InrD[OF b False]] assms(1) he
    obtain li ni lc w2 w3 where
      sp: "secondPass ?C c ?nodeID idPrefix False nm (0, 0, None) ?w0 =
             Some (Inr (li, ni, lc), w2)" and
      tp: "thirdPass ?C c ?nodeID (Some nm)
            (case renderedChildren (heap w2 c) of None \<Rightarrow> [] | Some m \<Rightarrow> map fst m) w2 =
            Some (Inr (), w3)" and
      al: "ancestor_loop ?nodeID (ni - num (nodeCount (heap w3 c))) (parentComponent (heap w3 c))
            (upd c (\<lambda>x. x\<lparr>nodeCount := Some ni\<rparr>) w3) = Some w5"
      by auto
    have r0: "renderedChildren (heap ?w0 c) = Some pm"
      using assms(1) by (simp add: firstPass_fields)
    have s0: "shouldUpdateChild (heap ?w0) (Some p) (Some n)"
      using assms(7) by (simp add: shouldUpdateChild_def firstPass_fields)
    have c0: "calls ?w0 = calls w" by (simp add: entered_def)
    from postD[OF secondPass_reused[OF r0 assms(2,3,4,5,6) s0 assms(8)] sp] c0
    obtain x where
      a2: "renderedAt c k w2 = Some p" and
      b2: "\<forall>j. j \<noteq> k \<longrightarrow> renderedAt c j w2 \<noteq> Some p" and
      c2: "?on w2 = ?on w @ [ReceiveProps p x]"
      by auto
    from postD[OF thirdPass_reused[OF a2 b2 assms(6)] tp]
    have a3: "renderedAt c k w3 = Some p" and c3: "?on w3 = ?on w2" by simp_all
    from ancestor_loop_fields[OF al] have
      f5: "\<forall>x. \<exists>v. heap w5 x = (heap (upd c (\<lambda>x. x\<lparr>nodeCount := Some ni\<rparr>) w3) x)\<lparr>nodeCount := v\<rparr>"
      and c5: "calls w5 = calls w3"
      by simp_all
    from f5 obtain v where
      "heap w5 c = (heap (upd c (\<lambda>x. x\<lparr>nodeCount := Some ni\<rparr>) w3) c)\<lparr>nodeCount := v\<rparr>"
      by blast
    then have "renderedChildren (heap w5 c) = renderedChildren (heap w3 c)" by simp
    then have "renderedAt c k w5 = renderedAt c k w3" by (simp add: renderedAt_def)
    with a3 c3 c2 c5 show ?thesis by auto
  qed
  with ra cl show ?thesis by simp
qed

theorem reused_child_identity_witness:
  "renderedChildren (heap (emptyWorld heapABC) 0) =
     Some [(''a'', Some 1), (''b'', Some 2), (''c'', Some 3)] \<and>
   shouldUpdateChild (heap (emptyWorld heapABC)) (Some 1) (Some 4) \<and>
   resolveNodeID (leaf parentOfID markupOf) 0 ''.0.'' (emptyWorld heapABC) \<noteq> [] \<and>
   (\<exists>u w'. updateChildren (leaf parentOfID markupOf) 0 ''.0.''
              (Some [(''c'', Some 6), (''a'', Some 4), (''b'', Some 5)]) (emptyWorld heapABC) =
              Some (Inr u, w') \<and>
      renderedAt 0 ''a'' w' = Some 1 \<and>
      (\<exists>x. filter (\<lambda>a. target a = 1) (calls w') = [ReceiveProps 1 x]))"
proof -
  let ?pm = "[(''a'', Some 1), (''b'', Some 2), (''c'', Some (3 :: ref))]"
  let ?nm = "[(''c'', Some 6), (''a'', Some 4), (''b'', Some (5 :: ref))]"
  let ?w = "emptyWorld heapABC"
  let ?C = "leaf parentOfID markupOf"
  have "case updateChildren ?C 0 ''.0.'' (Some ?nm) ?w of
          None \<Rightarrow> False | Some (Inl e, w') \<Rightarrow> False | Some (Inr u, w') \<Rightarrow> True"
    by code_simp
  then obtain u w' where run: "updateChildren ?C 0 ''.0.'' (Some ?nm) ?w = Some (Inr u, w')"
    by (rule outcome_returnsE)
  have h1: "renderedChildren (heap ?w 0) = Some ?pm"
    by (simp add: emptyWorld_def heapABC_def fresh_def)
  have h2: "distinct (map fst ?pm)" "distinct (childRefs ?pm)" "distinct (map fst ?nm)"
    by simp_all
  have h3: "childAt ?pm ''a'' = Some 1" "childAt ?nm ''a'' = Some 4"
    by (simp_all add: childAt_def)
  have h4: "shouldUpdateChild (heap ?w) (Some 1) (Some 4)"
    by (simp add: shouldUpdateChild_def emptyWorld_def heapABC_def fresh_def)
  have h5: "1 \<notin> set (childRefs ?nm)" by simp
  have h6: "resolveNodeID ?C 0 ''.0.'' ?w \<noteq> []"
    by (simp add: resolveNodeID_def emptyWorld_def heapABC_def fresh_def)
  then have h7: "resolveNodeID ?C 0 ''.0.'' ?w = [] \<longrightarrow> ''a'' = []" by simp
  have c0: "calls ?w = []" by (simp add: emptyWorld_def)
  from reused_child_identity[OF h1 h2 h3 h4 h5 h7 run] c0
  have "renderedAt 0 ''a'' w' = Some 1 \<and>
      (\<exists>x. filter (\<lambda>a. target a = 1) (calls w') = [ReceiveProps 1 x])"
    by simp
  with h1 h4 h6 run show ?thesis by blast
qed

section \<open>Node counts after an update\<close>

lemma mountedOf_cong:
  "\<forall>x. ctor (h' x) = ctor (h x) \<Longrightarrow> mountedOf h' a b = mountedOf h a b"
  by (simp add: mountedOf_def shouldUpdateChild_def split: option.splits)

lemma nextTotal_snoc:
  "nextTotal h prev (es @ [(k, v)]) =
     nextTotal h prev es +
     (case mountedOf h (prev k) v of None \<Rightarrow> 0 | Some m \<Rightarrow> num (nodeCount (h m)))"
proof (induction es)
  case Nil
  show ?case by simp
next
  case (Cons e es)
  then show ?case by (cases e) simp
qed

lemma nextTotal_cong:
  assumes "\<forall>x. ctor (h' x) = ctor (h x) \<and> nodeCount (h' x) = nodeCount (h x)"
    and "\<forall>k. prev' k = prev k"
  shows "nextTotal h' prev' es = nextTotal h prev es"
proof (induction es)
  case Nil
  show ?case by simp
next
  case (Cons e es)
  from assms(1) have m: "mountedOf h' a b = mountedOf h a b" for a b
    by (simp add: mountedOf_cong)
  from Cons assms show ?case by (cases e) (simp add: m split: option.splits)
qed

lemma below_cong:
  assumes "\<forall>x. x \<notin> S \<longrightarrow> rootNodeID (h' x) = rootNodeID (h x) \<and>
                          parentComponent (h' x) = parentComponent (h x)"
    and "set ancs \<inter> S = {}"
    and "\<forall>n. walkEnd h start ancs = Some n \<longrightarrow> n \<notin> S"
    and "below h nodeID start ancs"
  shows "below h' nodeID start ancs"
  using assms(2,3,4)
proof (induction ancs arbitrary: start)
  case Nil
  with assms(1) show ?case by (auto split: option.splits)
next
  case (Cons a ancs)
  from Cons.prems have a: "a \<notin> S" and s: "start = Some a" by auto
  with assms(1) have f: "rootNodeID (h' a) = rootNodeID (h a)"
    "parentComponent (h' a) = parentComponent (h a)" by simp_all
  from Cons.prems have "below h nodeID (parentComponent (h a)) ancs"
    "set ancs \<inter> S = {}" "\<forall>n. walkEnd h (parentComponent (h a)) ancs = Some n \<longrightarrow> n \<notin> S"
    by auto
  from Cons.IH[OF this(2) this(3) this(1)] Cons.prems f s show ?case by simp
qed

lemma prevChildAt_unprocessed:
  assumes "pn = (renderedChildren (heap w0 c) = None)"
    and "renderedAt c j w = renderedAt c j w0"
  shows "prevChildAt pn c j w = renderedAt c j w0"
proof (cases pn)
  case True
  with assms(1) have "renderedAt c j w0 = None" by (simp add: renderedAt_def)
  with True show ?thesis by (simp add: prevChildAt_simps)
next
  case False
  with assms(2) show ?thesis by (simp add: prevChildAt_simps)
qed

lemma secondPass_total:
  assumes pn: "pn = (renderedChildren (heap w c) = None)"
    and dn: "distinct (map fst nm)"
    and S: "\<forall>j q. renderedAt c j w = Some q \<longrightarrow> q \<in> S" "set (childRefs nm) \<subseteq> S"
  shows "post (secondPass (leaf gp mk) c nodeID idPrefix pn nm (0, 0, None)) w
     (\<lambda>r w'. \<forall>st'. r = Inr st' \<longrightarrow>
         fst (snd st') = nextTotal (heap w) (\<lambda>j. renderedAt c j w) nm \<and>
         (\<forall>x. nodeCount (heap w' x) = nodeCount (heap w x)) \<and>
         (\<forall>j q. renderedAt c j w' = Some q \<longrightarrow> q \<in> S) \<and>
         (\<forall>x. x \<notin> S \<longrightarrow> rootNodeID (heap w' x) = rootNodeID (heap w x) \<and>
                             parentComponent (heap w' x) = parentComponent (heap w x)))"
proof -
  let ?I = "\<lambda>pre (st :: int \<times> int \<times> ref option) w'.
         fst (snd st) = nextTotal (heap w) (\<lambda>j. renderedAt c j w) pre \<and>
         (\<forall>x. nodeCount (heap w' x) = nodeCount (heap w x) \<and> ctor (heap w' x) = ctor (heap w x)) \<and>
         (\<forall>j. j \<notin> fst ` set pre \<longrightarrow> renderedAt c j w' = renderedAt c j w) \<and>
         (\<forall>j q. renderedAt c j w' = Some q \<longrightarrow> q \<in> S) \<and>
         (\<forall>x. x \<notin> S \<longrightarrow> rootNodeID (heap w' x) = rootNodeID (heap w x) \<and>
                             parentComponent (heap w' x) = parentComponent (heap w x))"
  have init: "?I [] (0, 0, None) w" using S(1) by simp
  have "post (secondPass (leaf gp mk) c nodeID idPrefix pn nm (0, 0, None)) w
           (\<lambda>r w'. \<forall>st'. r = Inr st' \<longrightarrow> ?I ([] @ nm) st' w')"
  proof (rule secondPass_invariant[where I = ?I, OF init])
    fix pre' :: children and e :: "string \<times> ref option" and rest :: children
      and st1 :: "int \<times> int \<times> ref option" and w1 :: world
    assume split: "[] @ nm = pre' @ e # rest" and inv: "?I pre' st1 w1"
    note i1 = inv[THEN conjunct1]
    note i2 = inv[THEN conjunct2, THEN conjunct1]
    note i3 = inv[THEN conjunct2, THEN conjunct2, THEN conjunct1]
    note i4 = inv[THEN conjunct2, THEN conjunct2, THEN conjunct2, THEN conjunct1]
    note i5 = inv[THEN conjunct2, THEN conjunct2, THEN conjunct2, THEN conjunct2]
    obtain name nx where e: "e = (name, nx)" by (cases e)
    obtain li ni lc where st1: "st1 = (li, ni, lc)" by (cases st1)
    from split e have nm: "nm = pre' @ (name, nx) # rest" by simp
    from childAt_split(1)[OF dn nm] have fresh: "name \<notin> fst ` set pre'" .
    from i3 fresh have "renderedAt c name w1 = renderedAt c name w" by simp
    from prevChildAt_unprocessed[OF pn this]
    have prev: "prevChildAt pn c name w1 = renderedAt c name w" .
    have prevS: "prevChildAt pn c name w1 = Some x \<Longrightarrow> x \<in> S" for x
      unfolding prev using S(1) by blast
    have nxS: "nx = Some x \<Longrightarrow> x \<in> S" for x
    proof -
      assume "nx = Some x"
      with nm have "(name, Some x) \<in> set nm" by simp
      from entry_mem[OF this] S(2) show "x \<in> S" by blast
    qed
    from i2 have mo: "mountedOf (heap w1) a b = mountedOf (heap w) a b" for a b
      by (simp add: mountedOf_cong)
    have "post (secondPass_step (leaf gp mk) c nodeID idPrefix pn (name, nx) (li, ni, lc)) w1
            (\<lambda>r w'. ((((\<forall>x. nodeCount (heap w' x) = nodeCount (heap w1 x) \<and>
                  ctor (heap w' x) = ctor (heap w1 x) \<and>
                  isComponent (heap w' x) = isComponent (heap w1 x)) \<and>
               (\<forall>j. j \<noteq> name \<longrightarrow> renderedAt c j w' = renderedAt c j w1)) \<and>
               (renderedAt c name w' = renderedAt c name w1 \<or> renderedAt c name w' = nx \<or>
                renderedAt c name w' = None)) \<and>
               (\<forall>li' ni' lc'. r = Inr (li', ni', lc') \<longrightarrow>
                  li' = (case prevChildAt pn c name w1 of
                           None \<Rightarrow> li
                         | Some p \<Rightarrow> max (num (mountIndex (heap w1 p))) li) \<and>
                  ni' = ni + (case mountedOf (heap w1) (prevChildAt pn c name w1) nx of
                                None \<Rightarrow> 0
                              | Some m \<Rightarrow> num (nodeCount (heap w1 m))))) \<and>
               (\<forall>x. prevChildAt pn c name w1 \<noteq> Some x \<longrightarrow> nx \<noteq> Some x \<longrightarrow>
                  rootNodeID (heap w' x) = rootNodeID (heap w1 x) \<and>
                  parentComponent (heap w' x) = parentComponent (heap w1 x) \<and>
                  mountIndex (heap w' x) = mountIndex (heap w1 x) \<and>
                  props (heap w' x) = props (heap w1 x)))"
      by (intro post_conj step_statics step_map_other step_map_at step_result step_frame_fields)
    then show "post (secondPass_step (leaf gp mk) c nodeID idPrefix pn e st1) w1
             (\<lambda>r w'. \<forall>st'. r = Inr st' \<longrightarrow> ?I (pre' @ [e]) st' w')"
      unfolding e st1
    proof (rule post_mono)
      fix r :: "error + int \<times> int \<times> ref option" and w' :: world
      assume a: "((((\<forall>x. nodeCount (heap w' x) = nodeCount (heap w1 x) \<and>
                  ctor (heap w' x) = ctor (heap w1 x) \<and>
                  isComponent (heap w' x) = isComponent (heap w1 x)) \<and>
               (\<forall>j. j \<noteq> name \<longrightarrow> renderedAt c j w' = renderedAt c j w1)) \<and>
               (renderedAt c name w' = renderedAt c name w1 \<or> renderedAt c name w' = nx \<or>
                renderedAt c name w' = None)) \<and>
               (\<forall>li' ni' lc'. r = Inr (li', ni', lc') \<longrightarrow>
                  li' = (case prevChildAt pn c name w1 of
                           None \<Rightarrow> li
                         | Some p \<Rightarrow> max (num (mountIndex (heap w1 p))) li) \<and>
                  ni' = ni + (case mountedOf (heap w1) (prevChildAt pn c name w1) nx of
                                None \<Rightarrow> 0
                              | Some m \<Rightarrow> num (nodeCount (heap w1 m))))) \<and>
               (\<forall>x. prevChildAt pn c name w1 \<noteq> Some x \<longrightarrow> nx \<noteq> Some x \<longrightarrow>
                  rootNodeID (heap w' x) = rootNodeID (heap w1 x) \<and>
                  parentComponent (heap w' x) = parentComponent (heap w1 x) \<and>
                  mountIndex (heap w' x) = mountIndex (heap w1 x) \<and>
                  props (heap w' x) = props (heap w1 x))"
      note a1 = a[THEN conjunct1, THEN conjunct1, THEN conjunct1, THEN conjunct1]
      note a2 = a[THEN conjunct1, THEN conjunct1, THEN conjunct1, THEN conjunct2]
      note a3 = a[THEN conjunct1, THEN conjunct1, THEN conjunct2]
      note a4 = a[THEN conjunct1, THEN conjunct2]
      note a5 = a[THEN conjunct2]
      from i1 st1 have ni: "ni = nextTotal (heap w) (\<lambda>j. renderedAt c j w) pre'" by simp
      have k1: "fst (snd st') = nextTotal (heap w) (\<lambda>j. renderedAt c j w) (pre' @ [(name, nx)])"
        if "r = Inr st'" for st' :: "int \<times> int \<times> ref option"
      proof -
        obtain li' ni' lc' where st': "st' = (li', ni', lc')" by (cases st')
        from a4[rule_format, of li' ni' lc'] that st'
        have "ni' = ni + (case mountedOf (heap w1) (prevChildAt pn c name w1) nx of
                                None \<Rightarrow> 0
                              | Some m \<Rightarrow> num (nodeCount (heap w1 m)))" by simp
        then show ?thesis
          unfolding st' prev mo nextTotal_snoc ni using i2 by (simp split: option.splits)
      qed
      have k2: "\<forall>x. nodeCount (heap w' x) = nodeCount (heap w x) \<and> ctor (heap w' x) = ctor (heap w x)"
        using a1 i2 by simp
      have k3: "\<forall>j. j \<notin> fst ` set (pre' @ [(name, nx)]) \<longrightarrow> renderedAt c j w' = renderedAt c j w"
        using a2 i3 by simp
      have k4: "renderedAt c j w' = Some q \<longrightarrow> q \<in> S" for j q
      proof (cases "j = name")
        case True
        from a3 i4[rule_format, of name q] nxS[of q] True show ?thesis by auto
      next
        case False
        with a2 i4[rule_format, of j q] show ?thesis by simp
      qed
      have k5: "x \<notin> S \<longrightarrow> rootNodeID (heap w' x) = rootNodeID (heap w x) \<and>
                             parentComponent (heap w' x) = parentComponent (heap w x)" for x
      proof
        assume x: "x \<notin> S"
        with prevS[of x] nxS[of x] have "prevChildAt pn c name w1 \<noteq> Some x" "nx \<noteq> Some x"
          by auto
        from a5[rule_format, OF this] i5[rule_format, OF x]
        show "rootNodeID (heap w' x) = rootNodeID (heap w x) \<and>
                             parentComponent (heap w' x) = parentComponent (heap w x)" by simp
      qed
      from k1 k2 k3 k4 k5 show "\<forall>st'. r = Inr st' \<longrightarrow> ?I (pre' @ [(name, nx)]) st' w'"
        by blast
    qed
  qed
  then show ?thesis
    by (rule post_mono) simp
qed

lemma thirdPass_counts:
  assumes "\<forall>j q. renderedAt c j w = Some q \<longrightarrow> q \<in> S"
  shows "post (thirdPass (leaf gp mk) c nodeID nextChildren ks) w
     (\<lambda>r w'. \<forall>u. r = Inr u \<longrightarrow>
        (\<forall>x. nodeCount (heap w' x) = nodeCount (heap w x)) \<and>
        (\<forall>x. x \<notin> S \<longrightarrow> rootNodeID (heap w' x) = rootNodeID (heap w x) \<and>
                            parentComponent (heap w' x) = parentComponent (heap w x)))"
proof -
  let ?I = "\<lambda>w'. (\<forall>j q. renderedAt c j w' = Some q \<longrightarrow> q \<in> S) \<and>
        (\<forall>x. nodeCount (heap w' x) = nodeCount (heap w x)) \<and>
        (\<forall>x. x \<notin> S \<longrightarrow> rootNodeID (heap w' x) = rootNodeID (heap w x) \<and>
                            parentComponent (heap w' x) = parentComponent (heap w x))"
  have "post (thirdPass (leaf gp mk) c nodeID nextChildren ks) w (\<lambda>r w'. \<forall>u. r = Inr u \<longrightarrow> ?I w')"
  proof (rule thirdPass_invariant[where I = ?I])
    show "?I w" using assms by simp
  next
    fix name q and w1 :: world
    assume inv: "?I w1" and at: "renderedAt c name w1 = Some q"
    note i1 = inv[THEN conjunct1]
    note i2 = inv[THEN conjunct2, THEN conjunct1]
    note i3 = inv[THEN conjunct2, THEN conjunct2]
    from i1 at have qS: "q \<in> S" by blast
    show "post (priv_unmountChildByName (leaf gp mk) c nodeID q name) w1
        (\<lambda>r w'. \<forall>u. r = Inr u \<longrightarrow> ?I w')"
    proof (rule post_mono[OF unmount_leaf_facts])
      fix r :: "error + unit" and w' :: world
      assume a: "(\<forall>k. renderedAt c k w' = renderedAt c k w1 \<or> renderedAt c k w' = None) \<and>
              (\<forall>x. nodeCount (heap w' x) = nodeCount (heap w1 x) \<and>
                   rootNodeID (heap w' x) = rootNodeID (heap w1 x) \<and>
                   ctor (heap w' x) = ctor (heap w1 x)) \<and>
              (\<forall>x. x \<noteq> q \<longrightarrow> parentComponent (heap w' x) = parentComponent (heap w1 x) \<and>
                               mountIndex (heap w' x) = mountIndex (heap w1 x)) \<and>
              (\<forall>x. x \<noteq> q \<longrightarrow>
                   filter (\<lambda>a. target a = x) (calls w') = filter (\<lambda>a. target a = x) (calls w1))"
      note a1 = a[THEN conjunct1]
      note a2 = a[THEN conjunct2, THEN conjunct1]
      note a3 = a[THEN conjunct2, THEN conjunct2, THEN conjunct1]
      have k1: "renderedAt c j w' = Some x \<longrightarrow> x \<in> S" for j x
        using a1[rule_format, of j] i1[rule_format, of j x] by auto
      have k2: "\<forall>x. nodeCount (heap w' x) = nodeCount (heap w x)"
        using a2 i2 by simp
      have k3: "x \<notin> S \<longrightarrow> rootNodeID (heap w' x) = rootNodeID (heap w x) \<and>
                            parentComponent (heap w' x) = parentComponent (heap w x)" for x
      proof
        assume x: "x \<notin> S"
        with qS have "x \<noteq> q" by auto
        from a3[rule_format, OF this] a2[rule_format, of x] i3[rule_format, OF x]
        show "rootNodeID (heap w' x) = rootNodeID (heap w x) \<and>
                            parentComponent (heap w' x) = parentComponent (heap w x)" by simp
      qed
      from k1 k2 k3 show "\<forall>u. r = Inr u \<longrightarrow> ?I w'" by blast
    qed
  qed
  then show ?thesis by (rule post_mono) simp
qed

text \<open>
  What a normally returning \<open>updateChildren\<close> (leaf children, next children under
  distinct keys) leaves in the node counts, in its general case with node identifier
  \<open>nodeID\<close>.  Let \<open>ancs\<close> be the objects met on the \<open>_parentComponent\<close> chain that starts
  at the component's parent, before the first object whose root identifier is \<open>nodeID\<close>
  (or up to the end of the chain), and let no previous or next child be the component,
  one of \<open>ancs\<close>, or the object the chain stops at.  Then the component's node count is
  the sum of the node counts of the children mounted under the next keys; the node count
  of each object of \<open>ancs\<close> has changed by that sum minus the component's old node count;
  and every other node count is unchanged.
\<close>

lemma nodeCount_after_update:
  assumes "updateChildren (leaf gp mk) c idPrefix (Some nm) w = Some (Inr u, w')"
    and "resolveNodeID (leaf gp mk) c idPrefix w = nodeID" and "nodeID \<noteq> []"
    and "distinct (map fst nm)"
    and "below (heap w) nodeID (parentComponent (heap w c)) ancs"
    and "distinct ancs" and "c \<notin> set ancs"
    and "\<forall>x \<in> set (childRefs (case renderedChildren (heap w c) of None \<Rightarrow> [] | Some m \<Rightarrow> m)) \<union>
              set (childRefs nm).
           x \<noteq> c \<and> x \<notin> set ancs \<and>
           walkEnd (heap w) (parentComponent (heap w c)) ancs \<noteq> Some x"
  shows "nodeCount (heap w' c) = Some (nextTotal (heap w) (\<lambda>j. renderedAt c j w) nm) \<and>
     (\<forall>a \<in> set ancs.
        nodeCount (heap w' a) =
          Some (num (nodeCount (heap w a)) +
                (nextTotal (heap w) (\<lambda>j. renderedAt c j w) nm - num (nodeCount (heap w c))))) \<and>
     (\<forall>x. x \<noteq> c \<longrightarrow> x \<notin> set ancs \<longrightarrow> nodeCount (heap w' x) = nodeCount (heap w x))"
proof -
  let ?C = "leaf gp mk"
  let ?pm = "case renderedChildren (heap w c) of None \<Rightarrow> [] | Some m \<Rightarrow> m"
  let ?S = "set (childRefs ?pm) \<union> set (childRefs nm)"
  let ?w0 = "(entered w)\<lparr>heap := firstPass ?pm 0 (heap w)\<rparr>"
  let ?pn = "renderedChildren (heap (entered w) c) = None"
  let ?total = "nextTotal (heap w) (\<lambda>j. renderedAt c j w) nm"
  have he: "heap (entered w) = heap w" by (simp add: entered_def)
  then have "resolveNodeID ?C c idPrefix (entered w) = resolveNodeID ?C c idPrefix w"
    by (simp add: resolveNodeID_def)
  with assms(2) have rn: "resolveNodeID ?C c idPrefix (entered w) = nodeID" by simp
  from depthGuard_heap[OF assms(1)[unfolded updateChildren_def]] obtain w5 where
    b: "priv_updateChildren ?C c idPrefix (Some nm) (entered w) = Some (Inr (), w5)" and
    h: "heap w' = heap w5"
    by blast
  from rn assms(3) have nz: "resolveNodeID ?C c idPrefix (entered w) \<noteq> []" by simp
  from keyedDiff_InrD[OF priv_updateChildren_InrD[OF b nz]] he rn
  obtain li ni lc w2 w3 ks where
    sp: "secondPass ?C c nodeID idPrefix ?pn nm (0, 0, None) ?w0 = Some (Inr (li, ni, lc), w2)" and
    tp: "thirdPass ?C c nodeID (Some nm) ks w2 = Some (Inr (), w3)" and
    al: "ancestor_loop nodeID (ni - num (nodeCount (heap w3 c))) (parentComponent (heap w3 c))
          (upd c (\<lambda>x. x\<lparr>nodeCount := Some ni\<rparr>) w3) = Some w5"
    by auto
  have f0: "rootNodeID (heap ?w0 x) = rootNodeID (heap w x)"
    "parentComponent (heap ?w0 x) = parentComponent (heap w x)"
    "nodeCount (heap ?w0 x) = nodeCount (heap w x)"
    "ctor (heap ?w0 x) = ctor (heap w x)"
    "renderedChildren (heap ?w0 x) = renderedChildren (heap w x)" for x
    by (simp_all add: firstPass_fields)
  have r0: "renderedAt c j ?w0 = renderedAt c j w" for j
    by (simp add: renderedAt_def firstPass_fields)
  have pn: "?pn = (renderedChildren (heap ?w0 c) = None)"
    by (simp add: firstPass_fields he)
  have S1: "\<forall>j q. renderedAt c j ?w0 = Some q \<longrightarrow> q \<in> ?S"
  proof (intro allI impI)
    fix j q assume "renderedAt c j ?w0 = Some q"
    then have "childAt ?pm j = Some q"
      unfolding r0 by (simp add: renderedAt_def split: option.splits)
    from childAt_mem[OF this] show "q \<in> ?S" by simp
  qed
  have S2: "set (childRefs nm) \<subseteq> ?S" by simp
  from postD[OF secondPass_total[OF pn assms(4) S1 S2] sp]
  have ni0: "ni = nextTotal (heap ?w0) (\<lambda>j. renderedAt c j ?w0) nm"
    and n2: "\<forall>x. nodeCount (heap w2 x) = nodeCount (heap ?w0 x)"
    and v2: "\<forall>j q. renderedAt c j w2 = Some q \<longrightarrow> q \<in> ?S"
    and f2: "\<forall>x. x \<notin> ?S \<longrightarrow> rootNodeID (heap w2 x) = rootNodeID (heap ?w0 x) \<and>
                             parentComponent (heap w2 x) = parentComponent (heap ?w0 x)"
    by simp_all
  have "nextTotal (heap ?w0) (\<lambda>j. renderedAt c j ?w0) nm = ?total"
    by (rule nextTotal_cong) (simp_all add: firstPass_fields renderedAt_def)
  with ni0 have ni: "ni = ?total" by simp
  from postD[OF thirdPass_counts[OF v2] tp]
  have n3: "\<forall>x. nodeCount (heap w3 x) = nodeCount (heap w2 x)"
    and f3: "\<forall>x. x \<notin> ?S \<longrightarrow> rootNodeID (heap w3 x) = rootNodeID (heap w2 x) \<and>
                            parentComponent (heap w3 x) = parentComponent (heap w2 x)"
    by simp_all
  have nc: "nodeCount (heap w3 x) = nodeCount (heap w x)" for x
    using n3 n2 f0(3) by simp
  have fr: "\<forall>x. x \<notin> ?S \<longrightarrow> rootNodeID (heap w3 x) = rootNodeID (heap w x) \<and>
                            parentComponent (heap w3 x) = parentComponent (heap w x)"
    using f3 f2 f0(1,2) by simp
  from assms(8) have cS: "c \<notin> ?S" and aS: "set ancs \<inter> ?S = {}"
    and eS: "\<forall>n. walkEnd (heap w) (parentComponent (heap w c)) ancs = Some n \<longrightarrow> n \<notin> ?S"
    by auto
  from fr cS have pc: "parentComponent (heap w3 c) = parentComponent (heap w c)" by blast
  let ?w4 = "upd c (\<lambda>x. x\<lparr>nodeCount := Some ni\<rparr>) w3"
  let ?d = "ni - num (nodeCount (heap w3 c))"
  have "below (heap w3) nodeID (parentComponent (heap w c)) ancs"
    using fr aS eS assms(5) by (rule below_cong)
  then have b4: "below (heap ?w4) nodeID (parentComponent (heap w c)) ancs"
    by (simp add: below_upd_nodeCount)
  from ancestor_loop_below[OF b4 assms(6), of ?d] al pc
  have h5: "\<forall>x. heap w5 x =
              (if x \<in> set ancs
               then (heap ?w4 x)\<lparr>nodeCount := Some (num (nodeCount (heap ?w4 x)) + ?d)\<rparr>
               else heap ?w4 x)"
    by auto
  have d: "?d = ?total - num (nodeCount (heap w c))"
    using ni nc by simp
  have A: "nodeCount (heap w' c) = Some ?total"
    using h h5[rule_format, of c] assms(7) ni by (simp add: heap_upd)
  have B: "nodeCount (heap w' a) =
          Some (num (nodeCount (heap w a)) + (?total - num (nodeCount (heap w c))))"
    if "a \<in> set ancs" for a
  proof -
    from that assms(7) have "a \<noteq> c" by auto
    then have "nodeCount (heap ?w4 a) = nodeCount (heap w a)"
      using nc by (simp add: heap_upd)
    with h h5[rule_format, of a] that d show ?thesis by simp
  qed
  have C: "nodeCount (heap w' x) = nodeCount (heap w x)" if "x \<noteq> c" "x \<notin> set ancs" for x
    using h h5[rule_format, of x] that nc by (simp add: heap_upd)
  from A B C show ?thesis by blast
qed

text \<open>
  C5, evaluated at a component \<open>1\<close> that owns the addressed node itself (its root
  identifier \<open>.0.x\<close> is the node identifier of the diff) and is the child of the component
  \<open>0\<close>, each of them one node: the update keeps the child under \<open>a\<close> and mounts a
  second child under \<open>b\<close>.  The node count of component \<open>1\<close>, the owner, becomes \<open>2\<close>,
  and the walk up the parents, which starts above the owner and so never meets its
  root identifier, changes the node count of component \<open>0\<close> from \<open>1\<close> to \<open>2\<close> as well.
\<close>

theorem owner_and_above_change:
  "resolveNodeID (leaf parentOfID markupOf) 1 ''.0.x.'' (emptyWorld heapNested) = ''.0.x'' \<and>
   rootNodeID (heapNested 1) = ''.0.x'' \<and> parentComponent (heapNested 1) = Some 0 \<and>
   rootNodeID (heapNested 0) = ''.0'' \<and>
   nodeCount (heapNested 0) = Some 1 \<and> nodeCount (heapNested 1) = Some 1 \<and>
   (case updateChildren (leaf parentOfID markupOf) 1 ''.0.x.''
           (Some [(''a'', Some 3), (''b'', Some 4)]) (emptyWorld heapNested) of
      None \<Rightarrow> False
    | Some (Inl e, w') \<Rightarrow> False
    | Some (Inr u, w') \<Rightarrow>
        nodeCount (heap w' 0) = Some 2 \<and> nodeCount (heap w' 1) = Some 2 \<and>
        applied w' = [([insertRecord ''.0.x'' 0 None], [''<.0.x.b>''])] \<and>
        calls w' = [ReceiveProps 2 5, Mount 4 ''.0.x.b''])"
  by code_simp

end
